theory Spec2Isabelle
  imports Complex_Main "HOL-Library.Multiset"
begin

section \<open>Texas Hold'Em poker engine: data model\<close>

text \<open>
  The development follows \<open>poker-game-engine.ts\<close> (class \<open>PokerGame\<close>). JavaScript numbers
  are modelled exactly: integers as \<open>int\<close>, and the fractional place values of
  \<open>getHandValue\<close> and the preflop strength as \<open>rat\<close>. Array indices are \<open>nat\<close>.
\<close>

datatype suit = Hearts | Diamonds | Clubs | Spades

record card =
  suit :: suit
  rank :: int
  hidden :: "bool option"

datatype GameStage = Preflop | Flop | Turn | River | Showdown

datatype PlayerAction = Fold | Check | Call | Raise | Allin

datatype HandRank =
  HighCard | Pair | TwoPair | ThreeKind | Straight |
  Flush | FullHouse | FourKind | StraightFlush | RoyalFlush

record HandEvaluation =
  hrank :: HandRank
  cards :: "card list"
  description :: string
  hvalue :: int

text \<open>
  The exceptions of the engine. \<open>TypeError\<close> is what JavaScript raises when a property is
  read from \<open>undefined\<close>, for instance \<open>kickers[0].rank\<close> on an array that is too short.
\<close>

datatype error =
  NoCardsLeft
  | CannotCheck
  | NotEnoughCards
  | NotAI
  | TypeError

section \<open>Hand evaluator\<close>

text \<open>\<open>xs[i].f\<close>: reading a field of an element that may be missing.\<close>

definition elemAt :: "'a list \<Rightarrow> nat \<Rightarrow> error + 'a" where
  "elemAt xs i = (if i < length xs then Inr (xs ! i) else Inl TypeError)"

text \<open>
  \<open>[...cards].sort((a, b) => b.rank - a.rank)\<close>: Array.prototype.sort is stable, so the
  result is the stable sort by descending rank.
\<close>

definition sortByRankDesc :: "card list \<Rightarrow> card list" where
  "sortByRankDesc cs = sort_key (\<lambda>c. - rank c) cs"

text \<open>
  \<open>countRanks\<close> builds a \<open>Map\<close> from the rank (as a decimal string) to its number of
  occurrences. A \<open>Map\<close> iterates in the order of first insertion, which the helpers that
  use \<open>find\<close> and \<open>forEach\<close> observe, so the model is an association list in
  insertion order. The keys are kept as numbers: \<open>parseInt(rank.toString())\<close> is the rank.
\<close>

fun mapIncrement :: "int \<Rightarrow> (int \<times> nat) list \<Rightarrow> (int \<times> nat) list" where
  "mapIncrement k [] = [(k, 1)]"
| "mapIncrement k ((k', n) # m) =
     (if k = k' then (k', n + 1) # m else (k', n) # mapIncrement k m)"

definition countRanks :: "card list \<Rightarrow> (int \<times> nat) list" where
  "countRanks cs = fold (\<lambda>c counts. mapIncrement (rank c) counts) cs []"

definition findCount :: "nat \<Rightarrow> (int \<times> nat) list \<Rightarrow> int" where
  "findCount n counts =
     (case find (\<lambda>e. snd e = n) counts of Some e \<Rightarrow> fst e | None \<Rightarrow> 0)"

definition getPairValue :: "card list \<Rightarrow> int" where
  "getPairValue cs = findCount 2 (countRanks cs)"

definition getHighestPairValue :: "card list \<Rightarrow> int" where
  "getHighestPairValue cs =
     fold (\<lambda>e highestPair. if snd e = 2 \<and> fst e > highestPair then fst e else highestPair)
       (countRanks cs) 0"

definition getThreeKindValue :: "card list \<Rightarrow> int" where
  "getThreeKindValue cs = findCount 3 (countRanks cs)"

definition getFourKindValue :: "card list \<Rightarrow> int" where
  "getFourKindValue cs = findCount 4 (countRanks cs)"

definition isFourOfAKind :: "card list \<Rightarrow> bool" where
  "isFourOfAKind cs = (4 \<in> set (map snd (countRanks cs)))"

definition isFullHouse :: "card list \<Rightarrow> bool" where
  "isFullHouse cs =
     (let counts = map snd (countRanks cs) in 3 \<in> set counts \<and> 2 \<in> set counts)"

definition isFlush :: "card list \<Rightarrow> bool" where
  "isFlush cs = (length (remdups (map suit cs)) = 1)"

text \<open>
  \<open>isStraight\<close> reads \<open>sortedCards[0] .. sortedCards[4]\<close> in the wheel test, left to right
  with short-circuit \<open>&&\<close>; a missing element raises.
\<close>

definition bindE :: "error + 'a \<Rightarrow> ('a \<Rightarrow> error + 'b) \<Rightarrow> error + 'b" where
  "bindE m f = (case m of Inl e \<Rightarrow> Inl e | Inr x \<Rightarrow> f x)"

definition ifE :: "error + bool \<Rightarrow> error + 'a \<Rightarrow> error + 'a \<Rightarrow> error + 'a" where
  "ifE c a b = bindE c (\<lambda>t. if t then a else b)"

definition rankAt :: "card list \<Rightarrow> nat \<Rightarrow> error + int" where
  "rankAt cs i = bindE (elemAt cs i) (\<lambda>c. Inr (rank c))"

definition rankIs :: "card list \<Rightarrow> nat \<Rightarrow> int \<Rightarrow> error + bool" where
  "rankIs cs i r = bindE (rankAt cs i) (\<lambda>x. Inr (x = r))"

definition andAlso :: "error + bool \<Rightarrow> error + bool \<Rightarrow> error + bool" where
  "andAlso a b = ifE a b (Inr False)"

fun consecutive :: "card list \<Rightarrow> bool" where
  "consecutive (a # b # cs) = (if rank a \<noteq> rank b + 1 then False else consecutive (b # cs))"
| "consecutive _ = True"

definition isStraight :: "card list \<Rightarrow> error + bool" where
  "isStraight cs =
     (let sortedCards = sortByRankDesc cs in
      ifE (andAlso (rankIs sortedCards 0 14) (andAlso (rankIs sortedCards 1 5)
             (andAlso (rankIs sortedCards 2 4) (andAlso (rankIs sortedCards 3 3)
               (rankIs sortedCards 4 2)))))
        (Inr True)
        (Inr (consecutive sortedCards)))"

definition isStraightFlush :: "card list \<Rightarrow> error + bool" where
  "isStraightFlush cs = (if isFlush cs then isStraight cs else Inr False)"

definition isRoyalFlush :: "card list \<Rightarrow> error + bool" where
  "isRoyalFlush cs = andAlso (isStraightFlush cs) (rankIs cs 0 14)"

definition isThreeOfAKind :: "card list \<Rightarrow> bool" where
  "isThreeOfAKind cs = (3 \<in> set (map snd (countRanks cs)))"

definition isTwoPair :: "card list \<Rightarrow> bool" where
  "isTwoPair cs = (length (filter (\<lambda>n. n = 2) (map snd (countRanks cs))) = 2)"

definition isPair :: "card list \<Rightarrow> bool" where
  "isPair cs = (2 \<in> set (map snd (countRanks cs)))"

definition getTwoPairValues :: "card list \<Rightarrow> int list" where
  "getTwoPairValues cs =
     sort_key uminus (map fst (filter (\<lambda>e. snd e = 2) (countRanks cs)))"

text \<open>
  \<open>Math.max(...ranks)\<close>. On no arguments JavaScript returns \<open>-Infinity\<close>, which \<open>int\<close> does
  not have; hands are never empty where the engine calls this (\<open>getCombinations(cards, 5)\<close>),
  and the model returns 0 there.
\<close>

definition getHighCard :: "card list \<Rightarrow> int" where
  "getHighCard cs = (case map rank cs of [] \<Rightarrow> 0 | r # rs \<Rightarrow> fold max rs r)"

definition kickerRank :: "card option \<Rightarrow> rat \<Rightarrow> rat" where
  "kickerRank kicker scale = (case kicker of Some c \<Rightarrow> of_int (rank c) / scale | None \<Rightarrow> 0)"

text \<open>
  \<open>getHandValue\<close>: the comparison value used to choose the best five cards. In the
  two-pair branch \<open>pairs\<close> has exactly two elements whenever \<open>isTwoPair\<close> holds.
\<close>

definition getHandValue :: "card list \<Rightarrow> error + rat" where
  "getHandValue cs =
     ifE (isRoyalFlush cs) (bindE (rankAt cs 0) (\<lambda>r. Inr (10 * 15 + of_int r)))
    (ifE (isStraightFlush cs) (bindE (rankAt cs 0) (\<lambda>r. Inr (9 * 15 + of_int r)))
    (if isFourOfAKind cs then
       (let fourKindRank = getFourKindValue cs;
            kicker = find (\<lambda>c. rank c \<noteq> fourKindRank) cs
        in Inr (8 * 15 + of_int fourKindRank + kickerRank kicker 100))
     else if isFullHouse cs then
       (let threeKindRank = getThreeKindValue cs;
            pairRank = getPairValue cs
        in Inr (7 * 15 + of_int threeKindRank + of_int pairRank / 100))
     else if isFlush cs then Inr (6 * 15 + of_int (getHighCard cs))
     else
     ifE (isStraight cs) (bindE (rankAt cs 0) (\<lambda>r. Inr (5 * 15 + of_int r)))
    (if isThreeOfAKind cs then
       (let threeKindRank = getThreeKindValue cs;
            kickers = sortByRankDesc (filter (\<lambda>c. rank c \<noteq> threeKindRank) cs)
        in bindE (rankAt kickers 0) (\<lambda>k0. bindE (rankAt kickers 1) (\<lambda>k1.
             Inr (4 * 15 + of_int threeKindRank + of_int k0 / 100 + of_int k1 / 10000))))
     else if isTwoPair cs then
       (let pairs = getTwoPairValues cs;
            kicker = find (\<lambda>c. rank c \<noteq> pairs ! 0 \<and> rank c \<noteq> pairs ! 1) cs
        in Inr (3 * 15 + of_int (pairs ! 0) + of_int (pairs ! 1) / 100 + kickerRank kicker 10000))
     else if isPair cs then
       (let pairRank = getPairValue cs;
            kickers = sortByRankDesc (filter (\<lambda>c. rank c \<noteq> pairRank) cs)
        in bindE (rankAt kickers 0) (\<lambda>k0. bindE (rankAt kickers 1) (\<lambda>k1.
           bindE (rankAt kickers 2) (\<lambda>k2.
             Inr (2 * 15 + of_int pairRank + of_int k0 / 100 + of_int k1 / 10000
                  + of_int k2 / 1000000)))))
     else Inr (1 * 15 + of_int (getHighCard cs)))))"

text \<open>\<open>getCombinations(array, k)\<close>: all sub-arrays of \<open>k\<close> elements, in order.\<close>

fun getCombinations :: "'a list \<Rightarrow> nat \<Rightarrow> 'a list list" where
  "getCombinations array 0 = [[]]"
| "getCombinations [] (Suc k) = []"
| "getCombinations (first # rest) (Suc k) =
     map (\<lambda>c. first # c) (getCombinations rest k) @ getCombinations rest (Suc k)"

text \<open>
  The loop of \<open>getBestFiveCardHand\<close> over the combinations, with its two variables
  \<open>bestHandValue\<close> and \<open>bestHand\<close>: a later combination replaces the best one only when
  its value is strictly greater.
\<close>

fun bestOfCombinations :: "card list list \<Rightarrow> rat \<Rightarrow> card list \<Rightarrow> error + card list" where
  "bestOfCombinations [] bestHandValue bestHand = Inr bestHand"
| "bestOfCombinations (combo # combos) bestHandValue bestHand =
     (let sortedCombo = sortByRankDesc combo in
      bindE (getHandValue sortedCombo) (\<lambda>handValue.
        if handValue > bestHandValue then bestOfCombinations combos handValue sortedCombo
        else bestOfCombinations combos bestHandValue bestHand))"

definition getBestFiveCardHand :: "card list \<Rightarrow> error + card list" where
  "getBestFiveCardHand cs =
     (if length cs = 5 then Inr (sortByRankDesc cs)
      else bestOfCombinations (getCombinations cs 5) (- 1) [])"

subsection \<open>Names for the descriptions\<close>

fun digitsOf :: "nat \<Rightarrow> string" where
  "digitsOf n =
     (if n < 10 then [''0123456789'' ! n]
      else digitsOf (n div 10) @ [''0123456789'' ! (n mod 10)])"

declare digitsOf.simps [simp del]

definition toString :: "int \<Rightarrow> string" where
  "toString i = (if i < 0 then CHR ''-'' # digitsOf (nat (- i)) else digitsOf (nat i))"

definition getRankName :: "int \<Rightarrow> string" where
  "getRankName r =
     (if r = 14 then ''Ace'' else if r = 13 then ''King'' else if r = 12 then ''Queen''
      else if r = 11 then ''Jack'' else toString r)"

fun getSuitName :: "suit \<Rightarrow> string" where
  "getSuitName Hearts = ''Hearts''"
| "getSuitName Diamonds = ''Diamonds''"
| "getSuitName Clubs = ''Clubs''"
| "getSuitName Spades = ''Spades''"

definition getCardName :: "card \<Rightarrow> string" where
  "getCardName c = getRankName (rank c) @ '' of '' @ getSuitName (suit c)"

text \<open>\<open>getCardName(bestHand[0])\<close> raises when the hand is empty.\<close>

definition topCardName :: "card list \<Rightarrow> error + string" where
  "topCardName bestHand = bindE (elemAt bestHand 0) (\<lambda>c. Inr (getCardName c))"

subsection \<open>evaluateHand\<close>

definition evaluateHand :: "card list \<Rightarrow> error + HandEvaluation" where
  "evaluateHand cs =
    (if length cs < 5 then Inl NotEnoughCards
     else bindE (getBestFiveCardHand cs) (\<lambda>bestHand.
     ifE (isRoyalFlush bestHand)
       (Inr \<lparr>hrank = RoyalFlush, cards = bestHand, description = ''Royal Flush'', hvalue = 10\<rparr>)
    (ifE (isStraightFlush bestHand)
       (bindE (topCardName bestHand) (\<lambda>n.
          Inr \<lparr>hrank = StraightFlush, cards = bestHand,
               description = ''Straight Flush, '' @ n @ '' high'', hvalue = 9\<rparr>))
    (if isFourOfAKind bestHand then
       (let fourKindRank = getFourKindValue bestHand in
          Inr \<lparr>hrank = FourKind, cards = bestHand,
               description = ''Four of a Kind, '' @ getRankName fourKindRank @ ''s'',
               hvalue = 8\<rparr>)
     else if isFullHouse bestHand then
       (let threeKindRank = getThreeKindValue bestHand;
            pairRank = getPairValue bestHand in
          Inr \<lparr>hrank = FullHouse, cards = bestHand,
               description = ''Full House, '' @ getRankName threeKindRank @ ''s over ''
                 @ getRankName pairRank @ ''s'',
               hvalue = 7\<rparr>)
     else if isFlush bestHand then
       bindE (topCardName bestHand) (\<lambda>n.
          Inr \<lparr>hrank = Flush, cards = bestHand,
               description = ''Flush, '' @ n @ '' high'', hvalue = 6\<rparr>)
     else
     ifE (isStraight bestHand)
       (bindE (topCardName bestHand) (\<lambda>n.
          Inr \<lparr>hrank = Straight, cards = bestHand,
               description = ''Straight, '' @ n @ '' high'', hvalue = 5\<rparr>))
    (if isThreeOfAKind bestHand then
       (let threeKindRank = getThreeKindValue bestHand in
          Inr \<lparr>hrank = ThreeKind, cards = bestHand,
               description = ''Three of a Kind, '' @ getRankName threeKindRank @ ''s'',
               hvalue = 4\<rparr>)
     else if isTwoPair bestHand then
       (let pairs = getTwoPairValues bestHand in
          Inr \<lparr>hrank = TwoPair, cards = bestHand,
               description = ''Two Pair, '' @ getRankName (pairs ! 0) @ ''s and ''
                 @ getRankName (pairs ! 1) @ ''s'',
               hvalue = 3\<rparr>)
     else if isPair bestHand then
       (let pairRank = getPairValue bestHand in
          Inr \<lparr>hrank = Pair, cards = bestHand,
               description = ''Pair of '' @ getRankName pairRank @ ''s'', hvalue = 2\<rparr>)
     else
       bindE (topCardName bestHand) (\<lambda>n.
          Inr \<lparr>hrank = HighCard, cards = bestHand,
               description = ''High Card, '' @ n, hvalue = 1\<rparr>))))))"

section \<open>Game state\<close>

text \<open>
  \<open>winners\<close> holds references to the player objects of \<open>players\<close>; the model keeps
  their seat indices, so that a change of a winner's chips is a change of the player.
  The field \<open>id\<close> is \<open>pid\<close> and \<open>log\<close> is \<open>logLines\<close> here.
\<close>

record Player =
  pid :: string
  name :: string
  chips :: int
  bet :: int
  folded :: bool
  isAI :: bool
  holeCards :: "card list"
  handEvaluation :: "HandEvaluation option"

record Pot =
  amount :: int
  eligiblePlayers :: "string list"

record GameState =
  deck :: "card list"
  players :: "Player list"
  communityCards :: "card list"
  stage :: GameStage
  currentPlayerIndex :: nat
  dealerIndex :: nat
  pots :: "Pot list"
  mainPot :: int
  minBet :: int
  currentBet :: int
  winners :: "nat list"
  roundOver :: bool
  logLines :: "string list"

definition SUITS :: "suit list" where
  "SUITS = [Hearts, Diamonds, Clubs, Spades]"

definition RANKS :: "int list" where
  "RANKS = [2, 3, 4, 5, 6, 7, 8, 9, 10, 11, 12, 13, 14]"

definition STARTING_CHIPS :: int where
  "STARTING_CHIPS = 1000"

definition SMALL_BLIND :: int where
  "SMALL_BLIND = 5"

definition BIG_BLIND :: int where
  "BIG_BLIND = 10"

definition MIN_BET :: int where
  "MIN_BET = BIG_BLIND"

subsection \<open>Deck\<close>

definition newCard :: "suit \<Rightarrow> int \<Rightarrow> card" where
  "newCard s r = \<lparr>suit = s, rank = r, hidden = None\<rparr>"

definition orderedDeck :: "card list" where
  "orderedDeck = concat (map (\<lambda>s. map (\<lambda>r. newCard s r) RANKS) SUITS)"

text \<open>
  The Fisher-Yates loop \<open>for (i = deck.length - 1; i > 0; i--)\<close>. The random source is an
  input of the model: \<open>js i\<close> is the value of \<open>Math.floor(getSecureRandom() * (i + 1))\<close>
  in the iteration for \<open>i\<close>. The swap is the one of two positions of the array, which is
  what the source does for \<open>js i \<le> i\<close>.
\<close>

definition swapCards :: "nat \<Rightarrow> nat \<Rightarrow> card list \<Rightarrow> card list" where
  "swapCards i j d = d[i := d ! j, j := d ! i]"

fun shuffleFrom :: "(nat \<Rightarrow> nat) \<Rightarrow> nat \<Rightarrow> card list \<Rightarrow> card list" where
  "shuffleFrom js 0 d = d"
| "shuffleFrom js (Suc i) d = shuffleFrom js i (swapCards (Suc i) (js (Suc i)) d)"

definition createShuffledDeck :: "(nat \<Rightarrow> nat) \<Rightarrow> card list" where
  "createShuffledDeck js = shuffleFrom js (length orderedDeck - 1) orderedDeck"

definition newPlayer :: "string \<Rightarrow> string \<Rightarrow> int \<Rightarrow> bool \<Rightarrow> Player" where
  "newPlayer i n c ai =
     \<lparr>pid = i, name = n, chips = c, bet = 0, folded = False, isAI = ai, holeCards = [],
      handEvaluation = None\<rparr>"

text \<open>The constructor \<open>new PokerGame(userChips, aiChips)\<close>.\<close>

definition PokerGame :: "(nat \<Rightarrow> nat) \<Rightarrow> int \<Rightarrow> int \<Rightarrow> GameState" where
  "PokerGame js userChips aiChips =
     \<lparr>deck = createShuffledDeck js,
      players = [newPlayer ''player'' ''You'' userChips False,
                 newPlayer ''ai'' ''Dealer'' aiChips True],
      communityCards = [], stage = Preflop, currentPlayerIndex = 0, dealerIndex = 1,
      pots = [], mainPot = 0, minBet = MIN_BET, currentBet = 0, winners = [],
      roundOver = False, logLines = [''New game started'']\<rparr>"

subsection \<open>Effects: a state and an optional exception\<close>

text \<open>
  A method that mutates the state and may throw returns the exception, if any, with the
  state as it is at that point: JavaScript does not undo the mutations made before a throw.
\<close>

type_synonym outcome = "error option \<times> GameState"

definition andThen :: "outcome \<Rightarrow> (GameState \<Rightarrow> outcome) \<Rightarrow> outcome" where
  "andThen r f = (case fst r of Some e \<Rightarrow> r | None \<Rightarrow> f (snd r))"

definition pushLog :: "string \<Rightarrow> GameState \<Rightarrow> GameState" where
  "pushLog line s = s\<lparr>logLines := logLines s @ [line]\<rparr>"

definition setPlayer :: "nat \<Rightarrow> Player \<Rightarrow> GameState \<Rightarrow> GameState" where
  "setPlayer i p s = s\<lparr>players := (players s)[i := p]\<rparr>"

definition drawCard :: "GameState \<Rightarrow> (error + card) \<times> GameState" where
  "drawCard s =
     (if length (deck s) = 0 then (Inl NoCardsLeft, s)
      else (Inr (last (deck s)), s\<lparr>deck := butlast (deck s)\<rparr>))"

definition withCard :: "GameState \<Rightarrow> (card \<Rightarrow> GameState \<Rightarrow> outcome) \<Rightarrow> outcome" where
  "withCard s f = (case fst (drawCard s) of Inl e \<Rightarrow> (Some e, snd (drawCard s))
                   | Inr c \<Rightarrow> f c (snd (drawCard s)))"

definition postBlind :: "nat \<Rightarrow> int \<Rightarrow> GameState \<Rightarrow> outcome" where
  "postBlind playerIndex amt s =
     (if playerIndex < length (players s) then
        (let player = players s ! playerIndex;
             actualAmount = min amt (chips player);
             player' = player\<lparr>bet := actualAmount, chips := chips player - actualAmount\<rparr>;
             s' = (setPlayer playerIndex player' s)\<lparr>mainPot := mainPot s + actualAmount\<rparr>
         in (None, pushLog (name player' @ '' posts '' @ toString actualAmount @ '' ''
               @ (if amt = SMALL_BLIND then ''small blind'' else ''big blind'')) s'))
      else (Some TypeError, s))"

definition hideCards :: "card list \<Rightarrow> card list" where
  "hideCards cs = map (\<lambda>c. c\<lparr>hidden := Some True\<rparr>) cs"

definition revealCards :: "card list \<Rightarrow> card list" where
  "revealCards cs = map (\<lambda>c. c\<lparr>hidden := Some False\<rparr>) cs"

fun dealHoleCardsTo :: "nat list \<Rightarrow> GameState \<Rightarrow> outcome" where
  "dealHoleCardsTo [] s = (None, s)"
| "dealHoleCardsTo (i # rest) s =
     withCard s (\<lambda>c1 s1. withCard s1 (\<lambda>c2 s2.
       (let player = players s2 ! i;
            hole = (if isAI player then hideCards [c1, c2] else [c1, c2])
        in dealHoleCardsTo rest (setPlayer i (player\<lparr>holeCards := hole\<rparr>) s2))))"

definition dealHoleCards :: "GameState \<Rightarrow> outcome" where
  "dealHoleCards s =
     andThen (dealHoleCardsTo [0..<length (players s)] s)
       (\<lambda>s'. (None, pushLog ''Hole cards dealt'' s'))"

text \<open>
  \<open>startHand\<close> is written as its two consecutive blocks: the reset of the state and of
  the players with the rotation of the dealer button, then the blinds, the hole cards and
  the first player to act.
\<close>

definition resetHand :: "(nat \<Rightarrow> nat) \<Rightarrow> GameState \<Rightarrow> GameState" where
  "resetHand js s0 =
     (let s1 = s0\<lparr>deck := createShuffledDeck js, communityCards := [], mainPot := 0,
                  pots := [], currentBet := 0, stage := Preflop, roundOver := False,
                  winners := [], logLines := [''New hand started'']\<rparr>;
          s2 = s1\<lparr>players := map (\<lambda>p. p\<lparr>bet := 0, folded := False, holeCards := [],
                                        handEvaluation := None\<rparr>) (players s1)\<rparr>
      in s2\<lparr>dealerIndex := (dealerIndex s2 + 1) mod length (players s2)\<rparr>)"

definition blindsAndHoleCards :: "GameState \<Rightarrow> outcome" where
  "blindsAndHoleCards s3 =
     (let n = length (players s3);
          smallBlindPos = (dealerIndex s3 + 1) mod n;
          bigBlindPos = (dealerIndex s3 + 2) mod n
      in andThen (postBlind smallBlindPos SMALL_BLIND s3) (\<lambda>s4.
         andThen (postBlind bigBlindPos BIG_BLIND s4) (\<lambda>s5.
         andThen (dealHoleCards (s5\<lparr>currentBet := BIG_BLIND\<rparr>)) (\<lambda>s6.
           (None, pushLog (''Blinds posted: Small blind '' @ toString SMALL_BLIND
                    @ '', Big blind '' @ toString BIG_BLIND)
                    (s6\<lparr>currentPlayerIndex := (bigBlindPos + 1) mod n\<rparr>))))))"

definition startHand :: "(nat \<Rightarrow> nat) \<Rightarrow> GameState \<Rightarrow> outcome" where
  "startHand js s0 = blindsAndHoleCards (resetHand js s0)"

subsection \<open>Settling the pot\<close>

text \<open>
  \<open>a % n\<close> of JavaScript truncates towards zero: the remainder has the sign of \<open>a\<close>.
  \<open>Math.floor(a / n)\<close> is the floor division \<open>div\<close> of \<open>int\<close>.
\<close>

definition jsRemainder :: "int \<Rightarrow> int \<Rightarrow> int" where
  "jsRemainder a n = sgn a * (\<bar>a\<bar> mod \<bar>n\<bar>)"

definition addChips :: "int \<Rightarrow> nat \<Rightarrow> GameState \<Rightarrow> GameState" where
  "addChips x w s = setPlayer w ((players s ! w)\<lparr>chips := chips (players s ! w) + x\<rparr>) s"

definition awardPot :: "nat list \<Rightarrow> GameState \<Rightarrow> GameState" where
  "awardPot ws s =
     (if length ws = 0 then s
      else
        (let amountPerWinner = mainPot s div int (length ws);
             s1 = fold (addChips amountPerWinner) ws s;
             remainder = jsRemainder (mainPot s) (int (length ws));
             s2 = (if remainder > 0 then addChips remainder (ws ! 0) s1 else s1)
         in s2\<lparr>mainPot := 0\<rparr>))"

definition revealAll :: "GameState \<Rightarrow> GameState" where
  "revealAll s =
     s\<lparr>players := map (\<lambda>p. p\<lparr>holeCards := revealCards (holeCards p)\<rparr>) (players s)\<rparr>"

definition endHand :: "nat list \<Rightarrow> GameState \<Rightarrow> GameState" where
  "endHand ws s =
     (let s1 = (awardPot ws s)\<lparr>winners := ws\<rparr>;
          s2 = pushLog (name (players s1 ! (ws ! 0)) @ '' wins '' @ toString (mainPot s1)) s1
      in (revealAll s2)\<lparr>stage := Showdown, roundOver := True\<rparr>)"

definition activePlayers :: "GameState \<Rightarrow> nat list" where
  "activePlayers s = filter (\<lambda>i. \<not> folded (players s ! i)) [0..<length (players s)]"

text \<open>The loop of \<open>showdown\<close> that evaluates the hand of every player still in.\<close>

fun evaluatePlayers :: "nat list \<Rightarrow> GameState \<Rightarrow> outcome" where
  "evaluatePlayers [] s = (None, s)"
| "evaluatePlayers (i # rest) s =
     (let player = players s ! i;
          allCards = holeCards player @ communityCards s
      in case evaluateHand allCards of
           Inl e \<Rightarrow> (Some e, s)
         | Inr ev \<Rightarrow>
             evaluatePlayers rest
               (pushLog (name player @ '' has '' @ description ev)
                  (setPlayer i (player\<lparr>handEvaluation := Some ev\<rparr>) s)))"

text \<open>
  \<open>activePlayers.sort((a, b) => b.handEvaluation.value - a.handEvaluation.value)\<close>: a
  stable sort by descending value. Every player sorted here has just been evaluated; the
  comparator's answer 0 for a missing evaluation is the key 0.
\<close>

definition valueKey :: "GameState \<Rightarrow> nat \<Rightarrow> int" where
  "valueKey s i = (case handEvaluation (players s ! i) of Some ev \<Rightarrow> - hvalue ev | None \<Rightarrow> 0)"

fun collectWinners :: "GameState \<Rightarrow> nat list \<Rightarrow> nat list \<Rightarrow> int \<Rightarrow> nat list" where
  "collectWinners s [] ws highestValue = ws"
| "collectWinners s (i # rest) ws highestValue =
     (case handEvaluation (players s ! i) of
        None \<Rightarrow> collectWinners s rest ws highestValue
      | Some ev \<Rightarrow>
          if length ws = 0 \<or> hvalue ev = highestValue
          then collectWinners s rest (ws @ [i]) (hvalue ev)
          else collectWinners s rest ws highestValue)"

definition joinNames :: "string list \<Rightarrow> string" where
  "joinNames ns = (case ns of [] \<Rightarrow> [] | n # rest \<Rightarrow> fold (\<lambda>x acc. acc @ '', '' @ x) rest n)"

definition winnerDescription :: "GameState \<Rightarrow> nat \<Rightarrow> string" where
  "winnerDescription s w =
     (case handEvaluation (players s ! w) of Some ev \<Rightarrow> description ev | None \<Rightarrow> ''undefined'')"

definition showdown :: "GameState \<Rightarrow> outcome" where
  "showdown s =
     (let s1 = revealAll (s\<lparr>stage := Showdown\<rparr>);
          active = activePlayers s1
      in andThen (evaluatePlayers active s1) (\<lambda>s2.
           (let sorted = sort_key (valueKey s2) active;
                ws = collectWinners s2 sorted [] (- 1);
                s3 = (awardPot ws s2)\<lparr>winners := ws\<rparr>;
                s4 = (if length ws = 1
                      then pushLog (name (players s3 ! (ws ! 0)) @ '' wins ''
                             @ toString (mainPot s3) @ '' with ''
                             @ winnerDescription s3 (ws ! 0)) s3
                      else pushLog (''Pot split between ''
                             @ joinNames (map (\<lambda>w. name (players s3 ! w)) ws)) s3)
            in (None, s4\<lparr>roundOver := True\<rparr>))))"

subsection \<open>Dealing the community cards\<close>

definition pushCommunity :: "card \<Rightarrow> GameState \<Rightarrow> GameState" where
  "pushCommunity c s = s\<lparr>communityCards := communityCards s @ [c]\<rparr>"

definition dealFlop :: "GameState \<Rightarrow> outcome" where
  "dealFlop s =
     withCard s (\<lambda>burn s1.
     withCard s1 (\<lambda>c1 s2.
     withCard (pushCommunity c1 s2) (\<lambda>c2 s3.
     withCard (pushCommunity c2 s3) (\<lambda>c3 s4.
       (None, pushLog ''Flop dealt'' ((pushCommunity c3 s4)\<lparr>stage := Flop\<rparr>))))))"

definition dealTurn :: "GameState \<Rightarrow> outcome" where
  "dealTurn s =
     withCard s (\<lambda>burn s1.
     withCard s1 (\<lambda>c1 s2.
       (None, pushLog ''Turn dealt'' ((pushCommunity c1 s2)\<lparr>stage := Turn\<rparr>))))"

definition dealRiver :: "GameState \<Rightarrow> outcome" where
  "dealRiver s =
     withCard s (\<lambda>burn s1.
     withCard s1 (\<lambda>c1 s2.
       (None, pushLog ''River dealt'' ((pushCommunity c1 s2)\<lparr>stage := River\<rparr>))))"

subsection \<open>Betting rounds\<close>

text \<open>
  The two loops that skip folded and all-in players have no bound of their own in the
  source; a run that never leaves the loop is the value \<open>None\<close>.
\<close>

definition skipped :: "Player \<Rightarrow> bool" where
  "skipped p = (folded p \<or> chips p = 0)"

partial_function (option) skipFromDealer :: "GameState \<Rightarrow> outcome option" where
  "skipFromDealer s =
     (if currentPlayerIndex s < length (players s) then
        (if skipped (players s ! currentPlayerIndex s) then
           (let s' = s\<lparr>currentPlayerIndex :=
                         (currentPlayerIndex s + 1) mod length (players s)\<rparr>
            in if currentPlayerIndex s' = (dealerIndex s' + 1) mod length (players s')
               then Some (None, s')
               else skipFromDealer s')
         else Some (None, s))
      else Some (Some TypeError, s))"

declare skipFromDealer.simps [code]

definition resetBetsForNewStage :: "GameState \<Rightarrow> outcome option" where
  "resetBetsForNewStage s =
     skipFromDealer
       (s\<lparr>currentBet := 0,
          players := map (\<lambda>p. p\<lparr>bet := 0\<rparr>) (players s),
          currentPlayerIndex := (dealerIndex s + 1) mod length (players s)\<rparr>)"

definition moveToNextStage :: "GameState \<Rightarrow> outcome option" where
  "moveToNextStage s =
     (let r = (case stage s of
                 Preflop \<Rightarrow> dealFlop s
               | Flop \<Rightarrow> dealTurn s
               | Turn \<Rightarrow> dealRiver s
               | River \<Rightarrow> showdown s
               | Showdown \<Rightarrow> (None, s\<lparr>roundOver := True\<rparr>))
      in case fst r of Some e \<Rightarrow> Some r | None \<Rightarrow> resetBetsForNewStage (snd r))"

definition checkBettingRoundComplete :: "GameState \<Rightarrow> outcome option" where
  "checkBettingRoundComplete s =
     (let active = activePlayers s in
      if length active = 1 then Some (None, endHand [active ! 0] s)
      else if list_all (\<lambda>i. bet (players s ! i) = currentBet s \<or> chips (players s ! i) = 0)
                active
           then moveToNextStage s
           else Some (None, s))"

partial_function (option) nextPlayerLoop :: "nat \<Rightarrow> GameState \<Rightarrow> outcome option" where
  "nextPlayerLoop startingIndex s =
     (let s' = s\<lparr>currentPlayerIndex := (currentPlayerIndex s + 1) mod length (players s)\<rparr>
      in if currentPlayerIndex s' = startingIndex then Some (None, s')
         else if currentPlayerIndex s' < length (players s') then
           (if skipped (players s' ! currentPlayerIndex s')
            then nextPlayerLoop startingIndex s'
            else Some (None, s'))
         else Some (Some TypeError, s'))"

declare nextPlayerLoop.simps [code]

definition nextPlayer :: "GameState \<Rightarrow> outcome option" where
  "nextPlayer s =
     (case nextPlayerLoop (currentPlayerIndex s) s of
        None \<Rightarrow> None
      | Some r \<Rightarrow> (case fst r of Some e \<Rightarrow> Some r
                   | None \<Rightarrow> checkBettingRoundComplete (snd r)))"

text \<open>
  \<open>playerAction(action, amount = 0)\<close> is a \<open>switch\<close> over the action followed by
  \<open>this.nextPlayer()\<close>. Every branch of the switch reads a property of
  \<open>players[currentPlayerIndex]\<close> before it changes anything, and the only \<open>throw\<close> of the
  switch comes before any change, so an exception of the switch leaves the state untouched.
\<close>

definition actionSwitch :: "PlayerAction \<Rightarrow> int \<Rightarrow> GameState \<Rightarrow> error + GameState" where
  "actionSwitch action amt s =
     (let i = currentPlayerIndex s in
      if length (players s) \<le> i then Inl TypeError
      else
        (let player = players s ! i in
         case action of
           Fold \<Rightarrow>
             Inr (pushLog (name player @ '' folds'')
                    (setPlayer i (player\<lparr>folded := True\<rparr>) s))
         | Check \<Rightarrow>
             if currentBet s > bet player then Inl CannotCheck
             else Inr (pushLog (name player @ '' checks'') s)
         | Call \<Rightarrow>
             (let callAmount = min (currentBet s - bet player) (chips player);
                  player' = player\<lparr>chips := chips player - callAmount,
                                   bet := bet player + callAmount\<rparr>
              in Inr (pushLog (name player' @ '' calls '' @ toString callAmount)
                   ((setPlayer i player' s)\<lparr>mainPot := mainPot s + callAmount\<rparr>)))
         | Raise \<Rightarrow>
             (let amount = (if amt < minBet s then minBet s else amt);
                  totalBet = currentBet s + amount;
                  raiseAmount = min (totalBet - bet player) (chips player);
                  player' = player\<lparr>chips := chips player - raiseAmount,
                                   bet := bet player + raiseAmount\<rparr>
              in Inr (pushLog (name player' @ '' raises to '' @ toString (bet player'))
                   ((setPlayer i player' s)\<lparr>mainPot := mainPot s + raiseAmount,
                                             currentBet := bet player'\<rparr>)))
         | Allin \<Rightarrow>
             (let allinAmount = chips player;
                  player' = player\<lparr>bet := bet player + allinAmount, chips := 0\<rparr>;
                  s1 = (setPlayer i player' s)\<lparr>mainPot := mainPot s + allinAmount\<rparr>;
                  s2 = (if bet player' > currentBet s1 then s1\<lparr>currentBet := bet player'\<rparr>
                        else s1)
              in Inr (pushLog (name player' @ '' goes all-in with ''
                   @ toString allinAmount) s2))))"

definition playerAction :: "PlayerAction \<Rightarrow> int \<Rightarrow> GameState \<Rightarrow> outcome option" where
  "playerAction action amt s =
     (case actionSwitch action amt s of
        Inl e \<Rightarrow> Some (Some e, s)
      | Inr s1 \<Rightarrow> nextPlayer s1)"

section \<open>Hand strength of the AI player\<close>

text \<open>
  \<open>xs[i]\<close> on an array of values, \<open>None\<close> for \<open>undefined\<close>. The strength is a number or
  \<open>NaN\<close>, the latter being \<open>None\<close>: with no hole cards \<open>ranks[0] === ranks[1]\<close> compares
  \<open>undefined\<close> with itself and the pair branch computes with \<open>undefined\<close>; with one hole
  card the difference of the ranks is \<open>NaN\<close> and both connection tests are false.
\<close>

definition nthOpt :: "'a list \<Rightarrow> nat \<Rightarrow> 'a option" where
  "nthOpt xs i = (if i < length xs then Some (xs ! i) else None)"

definition calculatePreflopHandStrength :: "card list \<Rightarrow> rat option" where
  "calculatePreflopHandStrength hole =
     (let ranks = map rank hole;
          suits = map suit hole
      in if nthOpt ranks 0 = nthOpt ranks 1 then
           (case nthOpt ranks 0 of
              None \<Rightarrow> None
            | Some pairRank \<Rightarrow> Some (5 / 10 + ((of_int pairRank - 2) / 12) * (4 / 10)))
         else
           (let suited = (nthOpt suits 0 = nthOpt suits 1);
                hasAce = (14 \<in> set ranks);
                hasKing = (13 \<in> set ranks);
                hasQueen = (12 \<in> set ranks);
                hasJack = (11 \<in> set ranks);
                diff = (case nthOpt ranks 0 of None \<Rightarrow> None
                        | Some a \<Rightarrow> (case nthOpt ranks 1 of None \<Rightarrow> None
                                     | Some b \<Rightarrow> Some \<bar>a - b\<bar>));
                connected = (diff = Some 1);
                closelyConnected = (case diff of None \<Rightarrow> False | Some d \<Rightarrow> d \<le> 3);
                strength = 2 / 10
                  + (if hasAce then 15 / 100 else 0)
                  + (if hasKing then 1 / 10 else 0)
                  + (if hasQueen then 5 / 100 else 0)
                  + (if hasJack then 3 / 100 else 0)
                  + (if suited then 1 / 10 else 0)
                  + (if connected then 1 / 10 else if closelyConnected then 5 / 100 else 0)
                  + (if hasAce \<and> hasKing then 1 / 10 else 0)
                  + (if suited \<and> connected \<and> (hasAce \<or> hasKing) then 1 / 10 else 0)
            in Some (min (95 / 100) strength)))"

definition rankStrength :: "rat \<Rightarrow> int \<Rightarrow> rat" where
  "rankStrength base r = base + (of_int r / 14) * (1 / 10)"

text \<open>
  \<open>calculateAIHandStrength\<close>: the estimate before \<open>aiAction\<close> adds its random bluff factor.
\<close>

definition calculateAIHandStrength :: "GameState \<Rightarrow> error + rat option" where
  "calculateAIHandStrength s =
     bindE (elemAt (players s) (currentPlayerIndex s)) (\<lambda>ai.
       if stage s = Preflop then Inr (calculatePreflopHandStrength (holeCards ai))
       else
         bindE (evaluateHand (holeCards ai @ communityCards s)) (\<lambda>ev.
         bindE (case hrank ev of
                  HighCard \<Rightarrow> bindE (rankAt (cards ev) 0) (\<lambda>r. Inr (rankStrength (1 / 10) r))
                | Pair \<Rightarrow> Inr (rankStrength (2 / 10) (getPairValue (cards ev)))
                | TwoPair \<Rightarrow> Inr (rankStrength (3 / 10) (getHighestPairValue (cards ev)))
                | ThreeKind \<Rightarrow> Inr (rankStrength (4 / 10) (getThreeKindValue (cards ev)))
                | Straight \<Rightarrow> bindE (rankAt (cards ev) 0) (\<lambda>r. Inr (rankStrength (5 / 10) r))
                | Flush \<Rightarrow> bindE (rankAt (cards ev) 0) (\<lambda>r. Inr (rankStrength (6 / 10) r))
                | FullHouse \<Rightarrow> Inr (rankStrength (7 / 10) (getThreeKindValue (cards ev)))
                | FourKind \<Rightarrow> Inr (rankStrength (8 / 10) (getFourKindValue (cards ev)))
                | StraightFlush \<Rightarrow>
                    bindE (rankAt (cards ev) 0) (\<lambda>r. Inr (rankStrength (9 / 10) r))
                | RoyalFlush \<Rightarrow> Inr 1) (\<lambda>strength.
           Inr (Some (if stage s = Flop then strength * (85 / 100)
                      else if stage s = Turn then strength * (95 / 100)
                      else strength)))))"

section \<open>Notions used to state the properties\<close>

text \<open>The comparable value and the category that \<open>evaluateHand\<close> returns for some cards.\<close>

definition valueOf :: "card list \<Rightarrow> error + int" where
  "valueOf cs = bindE (evaluateHand cs) (\<lambda>ev. Inr (hvalue ev))"

definition rankOf :: "card list \<Rightarrow> error + HandRank" where
  "rankOf cs = bindE (evaluateHand cs) (\<lambda>ev. Inr (hrank ev))"

definition descriptionOf :: "card list \<Rightarrow> error + string" where
  "descriptionOf cs = bindE (evaluateHand cs) (\<lambda>ev. Inr (description ev))"

text \<open>The ranks of the type \<open>Card\<close>: 2 to 14.\<close>

definition validRanks :: "card list \<Rightarrow> bool" where
  "validRanks cs = list_all (\<lambda>c. 2 \<le> rank c \<and> rank c \<le> 14) cs"

text \<open>
  What \<open>isStraight\<close> answers on five cards, and the ordinal of the category that the chain
  of tests in \<open>evaluateHand\<close> and \<open>getHandValue\<close> selects for a hand of five cards.
\<close>

definition straightOf :: "card list \<Rightarrow> bool" where
  "straightOf b =
     (map rank (sortByRankDesc b) = [14, 5, 4, 3, 2] \<or> consecutive (sortByRankDesc b))"

definition categoryOf :: "card list \<Rightarrow> int" where
  "categoryOf b =
     (if isFlush b \<and> straightOf b \<and> rank (b ! 0) = 14 then 10
      else if isFlush b \<and> straightOf b then 9
      else if isFourOfAKind b then 8
      else if isFullHouse b then 7
      else if isFlush b then 6
      else if straightOf b then 5
      else if isThreeOfAKind b then 4
      else if isTwoPair b then 3
      else if isPair b then 2
      else 1)"

text \<open>
  The swap indices that the shuffle can draw: \<open>0 \<le> j \<le> i\<close> in the iteration for \<open>i\<close>,
  for \<open>i\<close> from 51 down to 1.
\<close>

definition validSwaps :: "(nat \<Rightarrow> nat) \<Rightarrow> bool" where
  "validSwaps js = list_all (\<lambda>i. js i \<le> i) [1..<52]"

definition identitySwaps :: "nat \<Rightarrow> nat" where
  "identitySwaps i = i"

text \<open>
  A table at which a hand can start: the two players of the constructor, with stacks that
  are not negative, and the minimum bet of the constructor.
\<close>

definition tableOk :: "GameState \<Rightarrow> bool" where
  "tableOk s = (length (players s) = 2 \<and> list_all (\<lambda>p. 0 \<le> chips p) (players s)
                \<and> minBet s = MIN_BET)"

definition chipsTotal :: "GameState \<Rightarrow> int" where
  "chipsTotal s = sum_list (map chips (players s))"

definition betsTotal :: "GameState \<Rightarrow> int" where
  "betsTotal s = sum_list (map bet (players s))"

text \<open>
  The states of a hand: the state that \<open>startHand\<close> leaves, and every state that an action
  leaves when it is applied while the hand is not over (the callers act only then). An
  action that throws leaves the state it had reached.
\<close>

inductive handState :: "(nat \<Rightarrow> nat) \<Rightarrow> GameState \<Rightarrow> GameState \<Rightarrow> bool"
  for js :: "nat \<Rightarrow> nat" and s0 :: GameState where
  start: "startHand js s0 = (None, s) \<Longrightarrow> handState js s0 s"
| step: "handState js s0 s \<Longrightarrow> \<not> roundOver s \<Longrightarrow> playerAction a amt s = Some (r, s')
         \<Longrightarrow> handState js s0 s'"

text \<open>
  A sequence of actions, applied as the callers apply them: none once the hand is over, and
  none after the first exception. \<open>run\<close> is the state that the sequence leaves.
\<close>

fun playAll :: "(PlayerAction \<times> int) list \<Rightarrow> GameState \<Rightarrow> outcome option" where
  "playAll [] s = Some (None, s)"
| "playAll (x # rest) s =
     (if roundOver s then Some (None, s)
      else case playerAction (fst x) (snd x) s of
             None \<Rightarrow> None
           | Some r \<Rightarrow> (if fst r = None then playAll rest (snd r) else Some r))"

definition run :: "(PlayerAction \<times> int) list \<Rightarrow> GameState \<Rightarrow> GameState" where
  "run acts s = (case playAll acts s of Some r \<Rightarrow> snd r | None \<Rightarrow> s)"

text \<open>What the properties below observe of a state.\<close>

definition summary ::
  "GameState \<Rightarrow> GameStage \<times> nat \<times> nat \<times> nat \<times> int \<times> int \<times> int list \<times> int list \<times> bool \<times> nat list" where
  "summary s = (stage s, length (deck s), length (communityCards s), currentPlayerIndex s,
                mainPot s, currentBet s, map chips (players s), map bet (players s),
                roundOver s, winners s)"

text \<open>The invariant of the states of a hand, for the total \<open>T\<close> of the chips at the table.\<close>

fun stageCards :: "GameStage \<Rightarrow> nat \<Rightarrow> nat \<Rightarrow> bool" where
  "stageCards Preflop d c = (d = 48 \<and> c = 0)"
| "stageCards Flop d c = (d = 44 \<and> c = 3)"
| "stageCards Turn d c = (d = 42 \<and> c = 4)"
| "stageCards River d c = (d = 40 \<and> c = 5)"
| "stageCards Showdown d c = (40 \<le> d \<and> d \<le> 48)"

definition deckInv :: "GameState \<Rightarrow> bool" where
  "deckInv s = stageCards (stage s) (length (deck s)) (length (communityCards s))"

definition playersOk :: "GameState \<Rightarrow> bool" where
  "playersOk s =
     list_all (\<lambda>p. 0 \<le> chips p \<and> 0 \<le> bet p \<and> validRanks (holeCards p)) (players s)"

definition winnersOk :: "GameState \<Rightarrow> bool" where
  "winnersOk s = (winners s \<in> set [[], [0], [1], [0, 1]])"

definition coreInv :: "int \<Rightarrow> GameState \<Rightarrow> bool" where
  "coreInv T s =
     (length (players s) = 2 \<and> currentPlayerIndex s < 2 \<and> dealerIndex s < 2
      \<and> playersOk s \<and> 0 \<le> currentBet s \<and> 0 \<le> minBet s
      \<and> mainPot s + chipsTotal s = T
      \<and> deckInv s \<and> validRanks (deck s) \<and> validRanks (communityCards s)
      \<and> winnersOk s)"

definition midInv :: "int \<Rightarrow> GameState \<Rightarrow> bool" where
  "midInv T s =
     (coreInv T s \<and> \<not> roundOver s \<and> betsTotal s \<le> mainPot s \<and> stage s \<noteq> Showdown
      \<and> activePlayers s \<noteq> [])"

definition handInv :: "int \<Rightarrow> GameState \<Rightarrow> bool" where
  "handInv T s =
     (coreInv T s
      \<and> (if roundOver s then mainPot s = 0 \<and> stage s = Showdown
          else betsTotal s \<le> mainPot s \<and> stage s \<noteq> Showdown
               \<and> list_all (\<lambda>p. \<not> folded p) (players s)))"

text \<open>What the \<open>switch\<close> of \<open>playerAction\<close> changes, and what it leaves as it is.\<close>

definition sameTable :: "GameState \<Rightarrow> GameState \<Rightarrow> bool" where
  "sameTable s s1 =
     (deck s1 = deck s \<and> communityCards s1 = communityCards s \<and> stage s1 = stage s
      \<and> currentPlayerIndex s1 = currentPlayerIndex s \<and> dealerIndex s1 = dealerIndex s
      \<and> minBet s1 = minBet s \<and> winners s1 = winners s \<and> roundOver s1 = roundOver s)"

definition actionPost :: "PlayerAction \<Rightarrow> GameState \<Rightarrow> GameState \<Rightarrow> bool" where
  "actionPost a s s1 =
     (let i = currentPlayerIndex s; p = players s ! i; q = players s1 ! i in
      sameTable s s1 \<and> players s1 = (players s)[i := q]
      \<and> holeCards q = holeCards p \<and> 0 \<le> chips q \<and> 0 \<le> bet q \<and> 0 \<le> currentBet s1
      \<and> mainPot s1 - mainPot s = chips p - chips q \<and> chips p - chips q = bet q - bet p
      \<and> (folded q \<longrightarrow> a = Fold \<or> folded p)
      \<and> (a = Raise \<longrightarrow> currentBet s1 = bet q))"

text \<open>What dealing \<open>n\<close> community cards after one burnt card changes.\<close>

definition dealPost :: "nat \<Rightarrow> GameStage \<Rightarrow> GameState \<Rightarrow> GameState \<Rightarrow> bool" where
  "dealPost n st s s1 =
     (players s1 = players s \<and> currentPlayerIndex s1 = currentPlayerIndex s
      \<and> dealerIndex s1 = dealerIndex s \<and> mainPot s1 = mainPot s \<and> minBet s1 = minBet s
      \<and> currentBet s1 = currentBet s \<and> winners s1 = winners s \<and> roundOver s1 = roundOver s
      \<and> stage s1 = st
      \<and> length (deck s1) + n + 1 = length (deck s)
      \<and> length (communityCards s1) = length (communityCards s) + n
      \<and> set (deck s1) \<subseteq> set (deck s)
      \<and> set (communityCards s1) \<subseteq> set (communityCards s) \<union> set (deck s))"

text \<open>
  After the betting round has been checked, the bets of the stage are either as they were
  or all reset to zero together with the current bet.
\<close>

definition betsKeptOrReset :: "GameState \<Rightarrow> GameState \<Rightarrow> bool" where
  "betsKeptOrReset s s' =
     ((currentBet s' = currentBet s \<and> map bet (players s') = map bet (players s))
      \<or> (currentBet s' = 0 \<and> list_all (\<lambda>p. bet p = 0) (players s')))"

text \<open>
  The blinds as \<open>startHand\<close> posts them at a table of two, from the table \<open>s0\<close> before
  the hand to the state \<open>s\<close> after it: the small blind comes from the seat after the
  dealer button, the big blind from the seat after that, and the first to act is the seat
  after the big blind.
\<close>

definition blindsPosted :: "GameState \<Rightarrow> GameState \<Rightarrow> bool" where
  "blindsPosted s0 s =
     (let d = dealerIndex s; sb = (d + 1) mod 2; bb = (d + 2) mod 2 in
      d = (dealerIndex s0 + 1) mod 2
      \<and> bet (players s ! sb) = min SMALL_BLIND (chips (players s0 ! sb))
      \<and> chips (players s ! sb)
          = chips (players s0 ! sb) - min SMALL_BLIND (chips (players s0 ! sb))
      \<and> bet (players s ! bb) = min BIG_BLIND (chips (players s0 ! bb))
      \<and> chips (players s ! bb)
          = chips (players s0 ! bb) - min BIG_BLIND (chips (players s0 ! bb))
      \<and> mainPot s = min SMALL_BLIND (chips (players s0 ! sb))
                     + min BIG_BLIND (chips (players s0 ! bb))
      \<and> currentBet s = BIG_BLIND
      \<and> currentPlayerIndex s = (bb + 1) mod 2)"


text \<open>
  Two concrete tables and the first hand at each: stacks of 1000 and 1000, and a user with
  1000 against an AI player with 8 chips; the shuffle swaps every card with itself.
\<close>

definition freshTable :: GameState where
  "freshTable = PokerGame identitySwaps 1000 1000"

definition firstHand :: GameState where
  "firstHand = snd (startHand identitySwaps freshTable)"

definition shortTable :: GameState where
  "shortTable = PokerGame identitySwaps 1000 8"

definition shortHand :: GameState where
  "shortHand = snd (startHand identitySwaps shortTable)"

text \<open>
  Two runs at these tables: the first hand called and checked down to the river, and a
  raise by the player who has 3 chips left.
\<close>

definition riverHand :: GameState where
  "riverHand = run [(Call, 0), (Check, 0), (Check, 0)] firstHand"

definition shortRaise :: GameState where
  "shortRaise = run [(Raise, 20)] shortHand"


section \<open>Lemmas about the hand evaluator\<close>

lemma length_sortByRankDesc [simp]: "length (sortByRankDesc cs) = length cs"
  by (simp add: sortByRankDesc_def)

lemma set_sortByRankDesc [simp]: "set (sortByRankDesc cs) = set cs"
  by (simp add: sortByRankDesc_def)

lemma mset_sortByRankDesc [simp]: "mset (sortByRankDesc cs) = mset cs"
  by (simp add: sortByRankDesc_def)

lemma map_of_mapIncrement:
  "map_of (mapIncrement k m) = (map_of m)(k \<mapsto> (case map_of m k of None \<Rightarrow> 1 | Some n \<Rightarrow> n + 1))"
  by (induction m) (auto simp: fun_eq_iff)

lemma keys_mapIncrement: "fst ` set (mapIncrement k m) = insert k (fst ` set m)"
  by (induction m) (force split: if_splits)+

lemma distinct_mapIncrement:
  "distinct (map fst m) \<Longrightarrow> distinct (map fst (mapIncrement k m))"
  by (induction m) (auto simp: keys_mapIncrement)

lemma countRanks_snoc: "countRanks (cs @ [c]) = mapIncrement (rank c) (countRanks cs)"
  by (simp add: countRanks_def)

lemma countRanks_props:
  "distinct (map fst (countRanks cs)) \<and>
   map_of (countRanks cs) = (\<lambda>r. if r \<in> rank ` set cs then Some (count_list (map rank cs) r) else None)"
proof (induction cs rule: rev_induct)
  case Nil
  then show ?case by (simp add: countRanks_def)
next
  case (snoc c cs)
  then show ?case
    by (auto simp: countRanks_snoc distinct_mapIncrement map_of_mapIncrement fun_eq_iff)
qed

lemma in_countRanks_iff:
  "(r, n) \<in> set (countRanks cs) \<longleftrightarrow> r \<in> rank ` set cs \<and> n = count_list (map rank cs) r"
  using countRanks_props [of cs] map_of_eq_Some_iff [of "countRanks cs" r n]
  by (auto split: if_splits)


lemma five_cases:
  assumes "length b = 5"
  obtains c0 c1 c2 c3 c4 where "b = [c0, c1, c2, c3, c4]"
proof -
  from assms obtain c0 b1 where "b = c0 # b1" "length b1 = 4" by (cases b) auto
  moreover then obtain c1 b2 where "b1 = c1 # b2" "length b2 = 3" by (cases b1) auto
  moreover then obtain c2 b3 where "b2 = c2 # b3" "length b3 = 2" by (cases b2) auto
  moreover then obtain c3 b4 where "b3 = c3 # b4" "length b4 = 1" by (cases b3) auto
  moreover then obtain c4 where "b4 = [c4]" by (cases b4) auto
  ultimately show ?thesis using that by blast
qed

lemma bindE_Inr [simp]: "bindE (Inr x) f = f x"
  by (simp add: bindE_def)

lemma bindE_Inl [simp]: "bindE (Inl e) f = Inl e"
  by (simp add: bindE_def)

lemma ifE_Inr [simp]: "ifE (Inr c) a b = (if c then a else b)"
  by (simp add: ifE_def)

lemma andAlso_Inr [simp]: "andAlso (Inr a) (Inr b) = Inr (a \<and> b)"
  by (simp add: andAlso_def)

lemma rankAt_in_range: "i < length cs \<Longrightarrow> rankAt cs i = Inr (rank (cs ! i))"
  by (simp add: rankAt_def elemAt_def)

lemma rankIs_in_range: "i < length cs \<Longrightarrow> rankIs cs i r = Inr (rank (cs ! i) = r)"
  by (simp add: rankIs_def rankAt_in_range)

lemma isStraight_five: "length b = 5 \<Longrightarrow> isStraight b = Inr (straightOf b)"
proof -
  assume "length b = 5"
  then have "length (sortByRankDesc b) = 5" by simp
  then obtain c0 c1 c2 c3 c4 where s: "sortByRankDesc b = [c0, c1, c2, c3, c4]"
    by (rule five_cases)
  show ?thesis
    by (auto simp add: isStraight_def straightOf_def s rankIs_in_range Let_def)
qed

lemma findCount_cases:
  "(findCount n (countRanks cs) = 0 \<and> n \<notin> set (map snd (countRanks cs)))
   \<or> (findCount n (countRanks cs) \<in> rank ` set cs
       \<and> count_list (map rank cs) (findCount n (countRanks cs)) = n
       \<and> n \<in> set (map snd (countRanks cs)))"
proof (cases "find (\<lambda>e. snd e = n) (countRanks cs)")
  case None
  have "findCount n (countRanks cs) = 0"
    using None by (simp add: findCount_def)
  moreover have "n \<notin> set (map snd (countRanks cs))"
    using None by (auto simp: find_None_iff)
  ultimately show ?thesis by blast
next
  case (Some e)
  then have "e \<in> set (countRanks cs)" "snd e = n"
    by (auto simp: find_Some_iff)
  then have "(fst e, n) \<in> set (countRanks cs)" by (cases e) auto
  then have "fst e \<in> rank ` set cs" "count_list (map rank cs) (fst e) = n"
    by (simp_all add: in_countRanks_iff)
  moreover have "findCount n (countRanks cs) = fst e"
    using Some by (simp add: findCount_def)
  moreover have "n \<in> set (map snd (countRanks cs))"
    using \<open>e \<in> set (countRanks cs)\<close> \<open>snd e = n\<close> by force
  ultimately show ?thesis by simp
qed

lemma length_filter_rank:
  "length (filter (\<lambda>c. rank c \<noteq> r) cs) = length cs - count_list (map rank cs) r"
proof (induction cs)
  case Nil
  then show ?case by simp
next
  case (Cons c cs)
  have "count_list (map rank cs) r \<le> length cs"
    using count_le_length [of "map rank cs" r] by simp
  with Cons show ?case by auto
qed

lemma validRanks_bounds: "validRanks cs \<Longrightarrow> c \<in> set cs \<Longrightarrow> 2 \<le> rank c \<and> rank c \<le> 14"
  by (simp add: validRanks_def list_all_iff)

lemma validRanks_sort [simp]: "validRanks (sortByRankDesc cs) = validRanks cs"
  by (simp add: validRanks_def list_all_iff)

lemma validRanks_filter: "validRanks cs \<Longrightarrow> validRanks (filter P cs)"
  by (simp add: validRanks_def list_all_iff)

lemma validRanks_nth: "validRanks cs \<Longrightarrow> i < length cs \<Longrightarrow> 2 \<le> rank (cs ! i) \<and> rank (cs ! i) \<le> 14"
  using validRanks_bounds nth_mem by blast

lemma findCount_bounds:
  "validRanks cs \<Longrightarrow> 0 \<le> findCount n (countRanks cs) \<and> findCount n (countRanks cs) \<le> 14"
  using findCount_cases [of n cs] validRanks_bounds [of cs] by force

lemma kickerRank_bounds:
  assumes "validRanks cs" and "0 < sc"
  shows "0 \<le> kickerRank (find P cs) sc \<and> kickerRank (find P cs) sc \<le> 14 / sc"
proof (cases "find P cs")
  case None
  then show ?thesis using assms by (simp add: kickerRank_def)
next
  case (Some c)
  then have "c \<in> set cs" by (auto simp: find_Some_iff)
  then have "2 \<le> rank c \<and> rank c \<le> 14" using assms validRanks_bounds by blast
  then show ?thesis using Some assms by (simp add: kickerRank_def divide_right_mono)
qed

lemma fold_max_bounds:
  "(lo::int) \<le> r \<Longrightarrow> r \<le> hi \<Longrightarrow> \<forall>x\<in>set rs. lo \<le> x \<and> x \<le> hi \<Longrightarrow>
   lo \<le> fold max rs r \<and> fold max rs r \<le> hi"
  by (induction rs arbitrary: r) auto

lemma getHighCard_bounds:
  "validRanks cs \<Longrightarrow> cs \<noteq> [] \<Longrightarrow> 2 \<le> getHighCard cs \<and> getHighCard cs \<le> 14"
proof -
  assume v: "validRanks cs" and ne: "cs \<noteq> []"
  then obtain c rest where cs: "cs = c # rest" by (cases cs) auto
  have "2 \<le> fold max (map rank rest) (rank c) \<and> fold max (map rank rest) (rank c) \<le> 14"
    using v cs by (intro fold_max_bounds) (auto simp: validRanks_def list_all_iff)
  then show ?thesis by (simp add: getHighCard_def cs)
qed

lemma getTwoPairValues_set:
  "x \<in> set (getTwoPairValues cs) \<Longrightarrow> x \<in> rank ` set cs"
  by (auto simp: getTwoPairValues_def in_countRanks_iff)

lemma getTwoPairValues_length:
  "isTwoPair cs \<Longrightarrow> length (getTwoPairValues cs) = 2"
  by (simp add: getTwoPairValues_def isTwoPair_def filter_map comp_def)

lemma getTwoPairValues_bounds:
  assumes "validRanks cs" and "isTwoPair cs" and "i < 2"
  shows "2 \<le> getTwoPairValues cs ! i \<and> getTwoPairValues cs ! i \<le> 14"
proof -
  have "getTwoPairValues cs ! i \<in> set (getTwoPairValues cs)"
    using assms getTwoPairValues_length by simp
  then have "getTwoPairValues cs ! i \<in> rank ` set cs" by (rule getTwoPairValues_set)
  then obtain c where "c \<in> set cs" "getTwoPairValues cs ! i = rank c" by auto
  then show ?thesis using assms(1) validRanks_bounds [of cs c] by simp
qed

lemma kickers_of_count:
  assumes "length cs = 5" and "n \<in> set (map snd (countRanks cs))"
  shows "length (sortByRankDesc (filter (\<lambda>c. rank c \<noteq> findCount n (countRanks cs)) cs)) = 5 - n"
  using findCount_cases [of n cs] assms by (simp add: length_filter_rank)

lemma evaluateHand_best:
  assumes "5 \<le> length cs" and "getBestFiveCardHand cs = Inr b" and "length b = 5"
  shows "\<exists>e. evaluateHand cs = Inr e \<and> cards e = b \<and> hvalue e = categoryOf b"
  using assms
  by (auto simp add: evaluateHand_def isRoyalFlush_def isStraightFlush_def isStraight_five
      rankIs_in_range topCardName_def elemAt_def categoryOf_def Let_def)

lemma getHandValue_band:
  assumes len: "length b = 5" and v: "validRanks b"
  shows "\<exists>x. getHandValue b = Inr x \<and> 15 * of_int (categoryOf b) \<le> x
             \<and> x < 15 * of_int (categoryOf b) + 15"
proof -
  have r0: "2 \<le> rank (b ! 0) \<and> rank (b ! 0) \<le> 14"
    using validRanks_nth [OF v, of 0] len by simp
  have ne: "b \<noteq> []" using len by auto
  have hc: "2 \<le> getHighCard b \<and> getHighCard b \<le> 14"
    using getHighCard_bounds [OF v ne] .
  note base = getHandValue_def isRoyalFlush_def isStraightFlush_def isStraight_five [OF len]
    rankIs_in_range rankAt_in_range categoryOf_def len
  show ?thesis
  proof (cases "isFlush b \<and> straightOf b")
    case True
    then show ?thesis using r0 by (auto simp: base)
  next
    case nsf: False
    show ?thesis
    proof (cases "isFourOfAKind b")
      case True
      have "0 \<le> getFourKindValue b \<and> getFourKindValue b \<le> 14"
        unfolding getFourKindValue_def using findCount_bounds [OF v] .
      moreover have "0 \<le> kickerRank (find (\<lambda>c. rank c \<noteq> getFourKindValue b) b) 100
         \<and> kickerRank (find (\<lambda>c. rank c \<noteq> getFourKindValue b) b) 100 \<le> 14 / 100"
        using kickerRank_bounds [OF v, of 100] by simp
      ultimately show ?thesis using nsf True by (auto simp: base Let_def)
    next
      case n4: False
      show ?thesis
      proof (cases "isFullHouse b")
        case True
        have "0 \<le> getThreeKindValue b \<and> getThreeKindValue b \<le> 14"
          unfolding getThreeKindValue_def using findCount_bounds [OF v] .
        moreover have "0 \<le> getPairValue b \<and> getPairValue b \<le> 14"
          unfolding getPairValue_def using findCount_bounds [OF v] .
        ultimately show ?thesis using nsf n4 True by (auto simp: base Let_def)
      next
        case nfh: False
        show ?thesis
        proof (cases "isFlush b")
          case True
          then show ?thesis using nsf n4 nfh hc by (auto simp: base)
        next
          case nf: False
          show ?thesis
          proof (cases "straightOf b")
            case True
            then show ?thesis using nsf n4 nfh nf r0 by (auto simp: base)
          next
            case ns: False
            show ?thesis
            proof (cases "isThreeOfAKind b")
              case True
              define ks where "ks = sortByRankDesc (filter (\<lambda>c. rank c \<noteq> getThreeKindValue b) b)"
              have lk: "length ks = 2"
                using kickers_of_count [OF len, of 3] True
                by (simp add: ks_def getThreeKindValue_def isThreeOfAKind_def)
              have vk: "validRanks ks"
                by (simp add: ks_def validRanks_filter [OF v])
              have k0: "2 \<le> rank (ks ! 0) \<and> rank (ks ! 0) \<le> 14"
                using validRanks_nth [OF vk, of 0] lk by simp
              have k1: "2 \<le> rank (ks ! 1) \<and> rank (ks ! 1) \<le> 14"
                using validRanks_nth [OF vk, of 1] lk by simp
              have t: "0 \<le> getThreeKindValue b \<and> getThreeKindValue b \<le> 14"
                unfolding getThreeKindValue_def using findCount_bounds [OF v] .
              have "getHandValue b = Inr (4 * 15 + of_int (getThreeKindValue b)
                      + of_int (rank (ks ! 0)) / 100 + of_int (rank (ks ! 1)) / 10000)"
                using nsf n4 nfh nf ns True lk
                by (simp add: base Let_def ks_def [symmetric])
              moreover have "categoryOf b = 4"
                using nsf n4 nfh nf ns True by (simp add: categoryOf_def)
              ultimately show ?thesis using k0 k1 t by simp
            next
              case n3: False
              show ?thesis
              proof (cases "isTwoPair b")
                case True
                have p0: "2 \<le> getTwoPairValues b ! 0 \<and> getTwoPairValues b ! 0 \<le> 14"
                  using getTwoPairValues_bounds [OF v True, of 0] by simp
                have p1: "2 \<le> getTwoPairValues b ! 1 \<and> getTwoPairValues b ! 1 \<le> 14"
                  using getTwoPairValues_bounds [OF v True, of 1] by simp
                have k: "0 \<le> kickerRank (find (\<lambda>c. rank c \<noteq> getTwoPairValues b ! 0
                            \<and> rank c \<noteq> getTwoPairValues b ! 1) b) 10000
                   \<and> kickerRank (find (\<lambda>c. rank c \<noteq> getTwoPairValues b ! 0
                            \<and> rank c \<noteq> getTwoPairValues b ! 1) b) 10000 \<le> 14 / 10000"
                  using kickerRank_bounds [OF v, of 10000] by simp
                have "categoryOf b = 3"
                  using nsf n4 nfh nf ns n3 True by (simp add: categoryOf_def)
                moreover have "getHandValue b = Inr (3 * 15 + of_int (getTwoPairValues b ! 0)
                   + of_int (getTwoPairValues b ! 1) / 100
                   + kickerRank (find (\<lambda>c. rank c \<noteq> getTwoPairValues b ! 0
                            \<and> rank c \<noteq> getTwoPairValues b ! 1) b) 10000)"
                  using nsf n4 nfh nf ns n3 True by (simp add: base Let_def)
                ultimately show ?thesis using p0 p1 k by simp
              next
                case n2p: False
                show ?thesis
                proof (cases "isPair b")
                  case True
                  define ks where "ks = sortByRankDesc (filter (\<lambda>c. rank c \<noteq> getPairValue b) b)"
                  have lk: "length ks = 3"
                    using kickers_of_count [OF len, of 2] True
                    by (simp add: ks_def getPairValue_def isPair_def)
                  have vk: "validRanks ks"
                    by (simp add: ks_def validRanks_filter [OF v])
                  have k0: "2 \<le> rank (ks ! 0) \<and> rank (ks ! 0) \<le> 14"
                    using validRanks_nth [OF vk, of 0] lk by simp
                  have k1: "2 \<le> rank (ks ! 1) \<and> rank (ks ! 1) \<le> 14"
                    using validRanks_nth [OF vk, of 1] lk by simp
                  have k2: "2 \<le> rank (ks ! 2) \<and> rank (ks ! 2) \<le> 14"
                    using validRanks_nth [OF vk, of 2] lk by simp
                  have t: "0 \<le> getPairValue b \<and> getPairValue b \<le> 14"
                    unfolding getPairValue_def using findCount_bounds [OF v] .
                  have "getHandValue b = Inr (2 * 15 + of_int (getPairValue b)
                      + of_int (rank (ks ! 0)) / 100 + of_int (rank (ks ! 1)) / 10000
                      + of_int (rank (ks ! 2)) / 1000000)"
                    using nsf n4 nfh nf ns n3 n2p True lk
                    by (simp add: base Let_def ks_def [symmetric])
                  moreover have "categoryOf b = 2"
                    using nsf n4 nfh nf ns n3 n2p True by (simp add: categoryOf_def)
                  ultimately show ?thesis using k0 k1 k2 t by simp
                next
                  case False
                  then show ?thesis using nsf n4 nfh nf ns n3 n2p hc by (auto simp: base)
                qed
              qed
            qed
          qed
        qed
      qed
    qed
  qed
qed

lemma ranks_sorted_perm:
  assumes "mset b1 = mset b2"
  shows "map rank (sortByRankDesc b1) = map rank (sortByRankDesc b2)"
proof -
  let ?f = "\<lambda>c. - rank c"
  have "mset (map ?f b1) = mset (map ?f b2)" using assms by (metis mset_map)
  then have "mset (map ?f (sort_key ?f b2)) = mset (map ?f b1)" by simp
  moreover have "sorted (map ?f (sort_key ?f b2))" by simp
  ultimately have a: "sort (map ?f b1) = map ?f (sort_key ?f b2)"
    by (rule properties_for_sort)
  have "mset (map ?f (sort_key ?f b1)) = mset (map ?f b1)" by simp
  moreover have "sorted (map ?f (sort_key ?f b1))" by simp
  ultimately have b: "sort (map ?f b1) = map ?f (sort_key ?f b1)"
    by (rule properties_for_sort)
  from a b have "map ?f (sort_key ?f b1) = map ?f (sort_key ?f b2)" by simp
  then have "map uminus (map ?f (sort_key ?f b1)) = map uminus (map ?f (sort_key ?f b2))"
    by simp
  then show ?thesis by (simp add: sortByRankDesc_def comp_def)
qed

lemma consecutive_ranks:
  "map rank a = map rank b \<Longrightarrow> consecutive a = consecutive b"
proof (induction a arbitrary: b rule: consecutive.induct)
  case (1 x y cs)
  then obtain x' y' cs' where b: "b = x' # y' # cs'" by (cases b; cases "tl b") auto
  with 1 show ?case by auto
qed auto

lemma sortByRankDesc_idem: "sortByRankDesc (sortByRankDesc b) = sortByRankDesc b"
  by (simp add: sortByRankDesc_def sort_key_id_if_sorted)

lemma straightOf_perm: "mset b1 = mset b2 \<Longrightarrow> straightOf b1 = straightOf b2"
  using ranks_sorted_perm [of b1 b2] consecutive_ranks [of "sortByRankDesc b1" "sortByRankDesc b2"]
  by (simp add: straightOf_def)

lemma isFlush_set: "isFlush b \<longleftrightarrow> card (suit ` set b) = 1"
  by (simp add: isFlush_def length_remdups_card_conv)

lemma isFlush_perm: "mset b1 = mset b2 \<Longrightarrow> isFlush b1 = isFlush b2"
  using mset_eq_setD [of b1 b2] by (simp add: isFlush_set)

lemma countRanks_perm:
  assumes "mset b1 = mset b2"
  shows "set (countRanks b1) = set (countRanks b2)"
proof -
  have s: "set b1 = set b2" using assms by (rule mset_eq_setD)
  have "mset (map rank b1) = mset (map rank b2)" using assms by (metis mset_map)
  then have "count_list (map rank b1) r = count_list (map rank b2) r" for r
    by (metis count_mset)
  then show ?thesis using s by (auto simp: in_countRanks_iff)
qed

lemma distinct_countRanks: "distinct (countRanks b)"
  using countRanks_props [of b] distinct_map by blast

lemma count_snd_card:
  "length (filter (\<lambda>n. n = k) (map snd (countRanks b))) = card {e \<in> set (countRanks b). snd e = k}"
proof -
  have "length (filter (\<lambda>n. n = k) (map snd (countRanks b)))
        = length (filter (\<lambda>e. snd e = k) (countRanks b))"
    by (simp add: filter_map comp_def)
  also have "\<dots> = card (set (filter (\<lambda>e. snd e = k) (countRanks b)))"
    using distinct_filter [OF distinct_countRanks [of b]] distinct_card by metis
  finally show ?thesis by simp
qed

lemma categoryOf_perm:
  assumes "mset b1 = mset b2"
  shows "categoryOf (sortByRankDesc b1) = categoryOf (sortByRankDesc b2)"
proof -
  have m: "mset (sortByRankDesc b1) = mset (sortByRankDesc b2)" using assms by simp
  have c: "set (countRanks (sortByRankDesc b1)) = set (countRanks (sortByRankDesc b2))"
    using m by (rule countRanks_perm)
  have r: "map rank (sortByRankDesc b1) = map rank (sortByRankDesc b2)"
    using assms by (rule ranks_sorted_perm)
  have l: "length b1 = length b2" using assms by (rule mset_eq_length)
  have r0: "rank (sortByRankDesc b1 ! 0) = rank (sortByRankDesc b2 ! 0)"
  proof (cases b1)
    case Nil
    then show ?thesis using l by simp
  next
    case (Cons a list)
    then have "0 < length (sortByRankDesc b1)" "0 < length (sortByRankDesc b2)"
      using l by auto
    then have "map rank (sortByRankDesc b1) ! 0 = rank (sortByRankDesc b1 ! 0)"
      "map rank (sortByRankDesc b2) ! 0 = rank (sortByRankDesc b2 ! 0)"
      by (simp_all only: nth_map)
    then show ?thesis using r by simp
  qed
  show ?thesis
    unfolding categoryOf_def isFourOfAKind_def isFullHouse_def isThreeOfAKind_def
      isTwoPair_def isPair_def count_snd_card Let_def
    using c r0 isFlush_perm [OF m] straightOf_perm [OF m]
    by simp
qed

lemma getCombinations_sound:
  "c \<in> set (getCombinations cs k) \<Longrightarrow> length c = k \<and> mset c \<subseteq># mset cs"
proof (induction cs k arbitrary: c rule: getCombinations.induct)
  case (1 array)
  then show ?case by simp
next
  case (2 k)
  then show ?case by simp
next
  case (3 first rest k)
  from "3.prems" consider
    (a) c' where "c = first # c'" "c' \<in> set (getCombinations rest k)"
    | (b) "c \<in> set (getCombinations rest (Suc k))"
    by auto
  then show ?case
  proof cases
    case a
    then show ?thesis using "3.IH"(1) [of c'] by simp
  next
    case b
    then have "length c = Suc k \<and> mset c \<subseteq># mset rest" using "3.IH"(2) by simp
    then show ?thesis
      by (metis multi_psub_of_add_self subset_mset.le_less subset_mset.le_less_trans mset.simps(2))
  qed
qed

lemma getCombinations_complete:
  "length S = k \<Longrightarrow> mset S \<subseteq># mset cs \<Longrightarrow> \<exists>c\<in>set (getCombinations cs k). mset c = mset S"
proof (induction cs k arbitrary: S rule: getCombinations.induct)
  case (1 array)
  then show ?case by simp
next
  case (2 k)
  then show ?case by simp
next
  case (3 first rest k)
  show ?case
  proof (cases "mset S \<subseteq># mset rest")
    case True
    then obtain c where "c \<in> set (getCombinations rest (Suc k))" "mset c = mset S"
      using "3.IH"(2) [of S] "3.prems" by auto
    then show ?thesis by auto
  next
    case False
    have sub: "mset S \<subseteq># add_mset first (mset rest)" using "3.prems" by simp
    have mem: "first \<in># mset S"
    proof (rule ccontr)
      assume "first \<notin># mset S"
      then have "mset S \<subseteq># mset rest"
        using sub by (metis Diff_eq_empty_iff_mset minus_add_mset_if_not_in_lhs)
      then show False using False by simp
    qed
    define S' where "S' = remove1 first S"
    have mS: "mset S = add_mset first (mset S')"
      using mem by (simp add: S'_def)
    have "length S' = k"
      using mem "3.prems" by (simp add: S'_def length_remove1)
    moreover have "mset S' \<subseteq># mset rest"
      using sub mS by simp
    ultimately obtain c' where "c' \<in> set (getCombinations rest k)" "mset c' = mset S'"
      using "3.IH"(1) [of S'] by auto
    then have "first # c' \<in> set (getCombinations (first # rest) (Suc k))"
      "mset (first # c') = mset S"
      using mS by auto
    then show ?thesis by blast
  qed
qed

lemma validRanks_sub: "validRanks cs \<Longrightarrow> mset S \<subseteq># mset cs \<Longrightarrow> validRanks S"
  using set_mset_mono [of "mset S" "mset cs"] by (auto simp: validRanks_def list_all_iff)

lemma bestOfCombinations_spec:
  assumes "\<forall>c\<in>set combos. length c = 5 \<and> validRanks c"
  shows "\<exists>h. bestOfCombinations combos v0 h0 = Inr h \<and>
     ((h = h0 \<and> (\<forall>c\<in>set combos. \<forall>x. getHandValue (sortByRankDesc c) = Inr x \<longrightarrow> x \<le> v0))
      \<or> (\<exists>c\<in>set combos. h = sortByRankDesc c \<and>
            (\<exists>x. getHandValue h = Inr x \<and> v0 < x \<and>
               (\<forall>c'\<in>set combos. \<forall>y. getHandValue (sortByRankDesc c') = Inr y \<longrightarrow> y \<le> x))))"
  using assms
proof (induction combos arbitrary: v0 h0)
  case Nil
  then show ?case by simp
next
  case (Cons c combos)
  have "length (sortByRankDesc c) = 5" "validRanks (sortByRankDesc c)"
    using Cons.prems by simp_all
  then obtain x where x: "getHandValue (sortByRankDesc c) = Inr x"
    using getHandValue_band by blast
  have rest: "\<forall>c\<in>set combos. length c = 5 \<and> validRanks c" using Cons.prems by simp
  show ?case
  proof (cases "x > v0")
    case True
    then have eq: "bestOfCombinations (c # combos) v0 h0
        = bestOfCombinations combos x (sortByRankDesc c)"
      using x by (simp add: Let_def)
    from Cons.IH [OF rest, of x "sortByRankDesc c"]
    obtain h where h: "bestOfCombinations combos x (sortByRankDesc c) = Inr h"
      and d: "(h = sortByRankDesc c \<and> (\<forall>c\<in>set combos. \<forall>y. getHandValue (sortByRankDesc c) = Inr y \<longrightarrow> y \<le> x))
      \<or> (\<exists>c'\<in>set combos. h = sortByRankDesc c' \<and>
            (\<exists>z. getHandValue h = Inr z \<and> x < z \<and>
               (\<forall>c''\<in>set combos. \<forall>y. getHandValue (sortByRankDesc c'') = Inr y \<longrightarrow> y \<le> z)))"
      by blast
    from d show ?thesis
    proof
      assume "h = sortByRankDesc c \<and> (\<forall>c\<in>set combos. \<forall>y. getHandValue (sortByRankDesc c) = Inr y \<longrightarrow> y \<le> x)"
      then show ?thesis using eq h x True by auto
    next
      assume "\<exists>c'\<in>set combos. h = sortByRankDesc c' \<and>
            (\<exists>z. getHandValue h = Inr z \<and> x < z \<and>
               (\<forall>c''\<in>set combos. \<forall>y. getHandValue (sortByRankDesc c'') = Inr y \<longrightarrow> y \<le> z))"
      then obtain c' z where "c' \<in> set combos" "h = sortByRankDesc c'" "getHandValue h = Inr z"
        "x < z" "\<forall>c''\<in>set combos. \<forall>y. getHandValue (sortByRankDesc c'') = Inr y \<longrightarrow> y \<le> z"
        by blast
      then show ?thesis using eq h x True by (intro exI [of _ h]) force
    qed
  next
    case False
    then have eq: "bestOfCombinations (c # combos) v0 h0 = bestOfCombinations combos v0 h0"
      using x by (simp add: Let_def)
    from Cons.IH [OF rest, of v0 h0]
    obtain h where h: "bestOfCombinations combos v0 h0 = Inr h"
      and d: "(h = h0 \<and> (\<forall>c\<in>set combos. \<forall>y. getHandValue (sortByRankDesc c) = Inr y \<longrightarrow> y \<le> v0))
      \<or> (\<exists>c'\<in>set combos. h = sortByRankDesc c' \<and>
            (\<exists>z. getHandValue h = Inr z \<and> v0 < z \<and>
               (\<forall>c''\<in>set combos. \<forall>y. getHandValue (sortByRankDesc c'') = Inr y \<longrightarrow> y \<le> z)))"
      by blast
    from d show ?thesis
    proof
      assume "h = h0 \<and> (\<forall>c\<in>set combos. \<forall>y. getHandValue (sortByRankDesc c) = Inr y \<longrightarrow> y \<le> v0)"
      then show ?thesis using eq h x False by auto
    next
      assume "\<exists>c'\<in>set combos. h = sortByRankDesc c' \<and>
            (\<exists>z. getHandValue h = Inr z \<and> v0 < z \<and>
               (\<forall>c''\<in>set combos. \<forall>y. getHandValue (sortByRankDesc c'') = Inr y \<longrightarrow> y \<le> z))"
      then obtain c' z where "c' \<in> set combos" "h = sortByRankDesc c'" "getHandValue h = Inr z"
        "v0 < z" "\<forall>c''\<in>set combos. \<forall>y. getHandValue (sortByRankDesc c'') = Inr y \<longrightarrow> y \<le> z"
        by blast
      then show ?thesis using eq h x False by (intro exI [of _ h]) force
    qed
  qed
qed

lemma valueOf_five:
  assumes "length S = 5"
  shows "valueOf S = Inr (categoryOf (sortByRankDesc S))"
proof -
  have "getBestFiveCardHand S = Inr (sortByRankDesc S)"
    using assms by (simp add: getBestFiveCardHand_def)
  then obtain e where "evaluateHand S = Inr e" "hvalue e = categoryOf (sortByRankDesc S)"
    using evaluateHand_best [of S "sortByRankDesc S"] assms by auto
  then show ?thesis by (simp add: valueOf_def)
qed

section \<open>Lemmas about the betting state machine\<close>

lemma two_players:
  assumes "length (players s) = 2"
  obtains p0 p1 where "players s = [p0, p1]"
proof -
  from assms obtain p0 r where "players s = p0 # r" "length r = 1" by (cases "players s") auto
  moreover then obtain p1 where "r = [p1]" by (cases r) auto
  ultimately show ?thesis using that by blast
qed

lemma nextPlayerLoop_back:
  "Suc (currentPlayerIndex s) mod length (players s) = i \<Longrightarrow>
   nextPlayerLoop i s = Some (None, s\<lparr>currentPlayerIndex := i\<rparr>)"
  by (subst nextPlayerLoop.simps) (simp add: Let_def)

lemma nextPlayerLoop_two:
  assumes "length (players s) = 2" and "currentPlayerIndex s < 2"
  shows "\<exists>j<2. nextPlayerLoop (currentPlayerIndex s) s = Some (None, s\<lparr>currentPlayerIndex := j\<rparr>)"
proof -
  define i where "i = currentPlayerIndex s"
  define j where "j = Suc i mod 2"
  have ne: "j \<noteq> i" and lt: "j < 2" unfolding j_def by presburger+
  have bk: "Suc j mod 2 = i" using assms(2) unfolding j_def i_def by presburger
  have jS: "Suc (currentPlayerIndex s) mod 2 = j" by (simp add: j_def i_def)
  show ?thesis
  proof (cases "skipped (players s ! j)")
    case True
    have "nextPlayerLoop i (s\<lparr>currentPlayerIndex := j\<rparr>)
            = Some (None, s\<lparr>currentPlayerIndex := j\<rparr>\<lparr>currentPlayerIndex := i\<rparr>)"
      by (rule nextPlayerLoop_back) (simp add: assms(1) bk)
    then have "nextPlayerLoop i s = Some (None, s\<lparr>currentPlayerIndex := i\<rparr>)"
      using True ne lt
      by (subst nextPlayerLoop.simps) (simp add: assms(1) Let_def jS)
    then show ?thesis using assms(2) unfolding i_def by blast
  next
    case False
    then have "nextPlayerLoop i s = Some (None, s\<lparr>currentPlayerIndex := j\<rparr>)"
      using ne lt by (subst nextPlayerLoop.simps) (simp add: assms(1) Let_def jS)
    then show ?thesis using lt unfolding i_def by blast
  qed
qed

lemma skipFromDealer_two:
  assumes "length (players s) = 2" and "currentPlayerIndex s = Suc (dealerIndex s) mod 2"
  shows "\<exists>j<2. skipFromDealer s = Some (None, s\<lparr>currentPlayerIndex := j\<rparr>)"
proof -
  define i where "i = currentPlayerIndex s"
  define j where "j = Suc i mod 2"
  have i2: "i < 2" using assms(2) unfolding i_def by simp
  have ne: "j \<noteq> Suc (dealerIndex s) mod 2" using assms(2) unfolding j_def i_def by presburger
  have lt: "j < 2" unfolding j_def by presburger
  have bk: "Suc j mod 2 = Suc (dealerIndex s) mod 2"
    using assms(2) unfolding j_def i_def by presburger
  have jS: "Suc (currentPlayerIndex s) mod 2 = j" by (simp add: j_def i_def)
  show ?thesis
  proof (cases "skipped (players s ! i)")
    case False
    then have "skipFromDealer s = Some (None, s)"
      using i2 unfolding i_def by (subst skipFromDealer.simps) (simp add: assms(1))
    moreover have "s = s\<lparr>currentPlayerIndex := i\<rparr>" by (simp add: i_def)
    ultimately show ?thesis using i2 by metis
  next
    case True
    show ?thesis
    proof (cases "skipped (players s ! j)")
      case False
      then have "skipFromDealer (s\<lparr>currentPlayerIndex := j\<rparr>)
                   = Some (None, s\<lparr>currentPlayerIndex := j\<rparr>)"
        using lt by (subst skipFromDealer.simps) (simp add: assms(1))
      then have "skipFromDealer s = Some (None, s\<lparr>currentPlayerIndex := j\<rparr>)"
        using True i2 ne unfolding i_def
        by (subst skipFromDealer.simps) (simp add: assms(1) Let_def jS)
      then show ?thesis using lt by blast
    next
      case s2: True
      have "skipFromDealer (s\<lparr>currentPlayerIndex := j\<rparr>)
              = Some (None, s\<lparr>currentPlayerIndex := Suc j mod 2\<rparr>)"
        using s2 lt bk by (subst skipFromDealer.simps) (simp add: assms(1) Let_def)
      then have "skipFromDealer s = Some (None, s\<lparr>currentPlayerIndex := Suc j mod 2\<rparr>)"
        using True i2 ne unfolding i_def
        by (subst skipFromDealer.simps) (simp add: assms(1) Let_def jS)
      moreover have "Suc j mod 2 < 2" by presburger
      ultimately show ?thesis by blast
    qed
  qed
qed

lemma chipsTotal_frame [simp]:
  "chipsTotal (s\<lparr>deck := a1\<rparr>) = chipsTotal s"
  "chipsTotal (s\<lparr>communityCards := a2\<rparr>) = chipsTotal s"
  "chipsTotal (s\<lparr>stage := a3\<rparr>) = chipsTotal s"
  "chipsTotal (s\<lparr>currentPlayerIndex := a4\<rparr>) = chipsTotal s"
  "chipsTotal (s\<lparr>dealerIndex := a5\<rparr>) = chipsTotal s"
  "chipsTotal (s\<lparr>pots := a6\<rparr>) = chipsTotal s"
  "chipsTotal (s\<lparr>mainPot := a7\<rparr>) = chipsTotal s"
  "chipsTotal (s\<lparr>minBet := a8\<rparr>) = chipsTotal s"
  "chipsTotal (s\<lparr>currentBet := a9\<rparr>) = chipsTotal s"
  "chipsTotal (s\<lparr>winners := a10\<rparr>) = chipsTotal s"
  "chipsTotal (s\<lparr>roundOver := a11\<rparr>) = chipsTotal s"
  "chipsTotal (s\<lparr>logLines := a12\<rparr>) = chipsTotal s"
  "chipsTotal (s\<lparr>players := ps\<rparr>) = sum_list (map chips ps)"
  by (simp_all add: chipsTotal_def)

lemma betsTotal_frame [simp]:
  "betsTotal (s\<lparr>deck := a1\<rparr>) = betsTotal s"
  "betsTotal (s\<lparr>communityCards := a2\<rparr>) = betsTotal s"
  "betsTotal (s\<lparr>stage := a3\<rparr>) = betsTotal s"
  "betsTotal (s\<lparr>currentPlayerIndex := a4\<rparr>) = betsTotal s"
  "betsTotal (s\<lparr>dealerIndex := a5\<rparr>) = betsTotal s"
  "betsTotal (s\<lparr>pots := a6\<rparr>) = betsTotal s"
  "betsTotal (s\<lparr>mainPot := a7\<rparr>) = betsTotal s"
  "betsTotal (s\<lparr>minBet := a8\<rparr>) = betsTotal s"
  "betsTotal (s\<lparr>currentBet := a9\<rparr>) = betsTotal s"
  "betsTotal (s\<lparr>winners := a10\<rparr>) = betsTotal s"
  "betsTotal (s\<lparr>roundOver := a11\<rparr>) = betsTotal s"
  "betsTotal (s\<lparr>logLines := a12\<rparr>) = betsTotal s"
  "betsTotal (s\<lparr>players := ps\<rparr>) = sum_list (map bet ps)"
  by (simp_all add: betsTotal_def)

lemma activePlayers_frame [simp]:
  "activePlayers (s\<lparr>deck := a1\<rparr>) = activePlayers s"
  "activePlayers (s\<lparr>communityCards := a2\<rparr>) = activePlayers s"
  "activePlayers (s\<lparr>stage := a3\<rparr>) = activePlayers s"
  "activePlayers (s\<lparr>currentPlayerIndex := a4\<rparr>) = activePlayers s"
  "activePlayers (s\<lparr>dealerIndex := a5\<rparr>) = activePlayers s"
  "activePlayers (s\<lparr>pots := a6\<rparr>) = activePlayers s"
  "activePlayers (s\<lparr>mainPot := a7\<rparr>) = activePlayers s"
  "activePlayers (s\<lparr>minBet := a8\<rparr>) = activePlayers s"
  "activePlayers (s\<lparr>currentBet := a9\<rparr>) = activePlayers s"
  "activePlayers (s\<lparr>winners := a10\<rparr>) = activePlayers s"
  "activePlayers (s\<lparr>roundOver := a11\<rparr>) = activePlayers s"
  "activePlayers (s\<lparr>logLines := a12\<rparr>) = activePlayers s"
  by (simp_all add: activePlayers_def)

lemma deckInv_frame [simp]:
  "deckInv (s\<lparr>players := a1\<rparr>) = deckInv s"
  "deckInv (s\<lparr>currentPlayerIndex := a4\<rparr>) = deckInv s"
  "deckInv (s\<lparr>dealerIndex := a5\<rparr>) = deckInv s"
  "deckInv (s\<lparr>pots := a6\<rparr>) = deckInv s"
  "deckInv (s\<lparr>mainPot := a7\<rparr>) = deckInv s"
  "deckInv (s\<lparr>minBet := a8\<rparr>) = deckInv s"
  "deckInv (s\<lparr>currentBet := a9\<rparr>) = deckInv s"
  "deckInv (s\<lparr>winners := a10\<rparr>) = deckInv s"
  "deckInv (s\<lparr>roundOver := a11\<rparr>) = deckInv s"
  "deckInv (s\<lparr>logLines := a12\<rparr>) = deckInv s"
  by (simp_all add: deckInv_def)

lemma activePlayers_two:
  "players s = [p0, p1] \<Longrightarrow>
   activePlayers s = (if folded p0 then [] else [0]) @ (if folded p1 then [] else [1])"
  by (simp add: activePlayers_def upt_rec)

lemma totals_two:
  "players s = [p0, p1] \<Longrightarrow> chipsTotal s = chips p0 + chips p1"
  "players s = [p0, p1] \<Longrightarrow> betsTotal s = bet p0 + bet p1"
  by (simp_all add: chipsTotal_def betsTotal_def)

lemma actionSwitch_spec:
  assumes "currentPlayerIndex s < length (players s)"
    and "0 \<le> chips (players s ! currentPlayerIndex s)"
    and "0 \<le> bet (players s ! currentPlayerIndex s)"
    and "0 \<le> currentBet s" and "0 \<le> minBet s"
  shows "case actionSwitch a amt s of
           Inl e \<Rightarrow> e = CannotCheck \<and> a = Check
                    \<and> currentBet s > bet (players s ! currentPlayerIndex s)
         | Inr s1 \<Rightarrow> actionPost a s s1
                    \<and> (a = Check \<longrightarrow> \<not> currentBet s > bet (players s ! currentPlayerIndex s))"
proof (cases a)
  case Fold
  then show ?thesis using assms
    by (simp add: actionSwitch_def Let_def pushLog_def setPlayer_def actionPost_def sameTable_def)
next
  case Check
  then show ?thesis using assms
    by (simp add: actionSwitch_def Let_def pushLog_def setPlayer_def actionPost_def sameTable_def)
next
  case Call
  then show ?thesis using assms
    by (simp add: actionSwitch_def Let_def pushLog_def setPlayer_def actionPost_def sameTable_def)
next
  case Raise
  then show ?thesis using assms
    by (auto simp add: actionSwitch_def Let_def pushLog_def setPlayer_def actionPost_def sameTable_def)
next
  case Allin
  then show ?thesis using assms
    by (simp add: actionSwitch_def Let_def pushLog_def setPlayer_def actionPost_def sameTable_def)
qed

lemma sum_list_map_update:
  "i < length xs \<Longrightarrow>
   sum_list (map f (xs[i := y])) = sum_list (map f xs) - f (xs ! i) + (f y :: int)"
proof (induction xs arbitrary: i)
  case Nil
  then show ?case by simp
next
  case (Cons x xs)
  then show ?case by (cases i) auto
qed

lemma list_all_update:
  "list_all P xs \<Longrightarrow> P y \<Longrightarrow> list_all P (xs[i := y])"
  by (induction xs arbitrary: i) (auto split: nat.splits)

lemma action_mid:
  assumes inv: "handInv T s" and nro: "\<not> roundOver s"
    and act: "actionSwitch a amt s = Inr s1"
  shows "midInv T s1 \<and> actionPost a s s1"
proof -
  have core: "coreInv T s" using inv by (simp add: handInv_def)
  have rest: "betsTotal s \<le> mainPot s" "stage s \<noteq> Showdown"
    "list_all (\<lambda>p. \<not> folded p) (players s)"
    using inv nro by (simp_all add: handInv_def)
  let ?i = "currentPlayerIndex s"
  let ?p = "players s ! ?i"
  define q where "q = players s1 ! ?i"
  have len: "length (players s) = 2" and i2: "?i < 2" using core by (simp_all add: coreInv_def)
  have pok: "playersOk s" using core by (simp add: coreInv_def)
  then have pn: "0 \<le> chips ?p" "0 \<le> bet ?p" "validRanks (holeCards ?p)"
    using len i2 by (simp_all add: playersOk_def list_all_length)
  have "0 \<le> currentBet s" "0 \<le> minBet s" using core by (simp_all add: coreInv_def)
  with actionSwitch_spec [of s a amt] pn len i2 act
  have post: "actionPost a s s1" by simp
  then have st: "sameTable s s1" and pl: "players s1 = (players s)[?i := q]"
    and q: "holeCards q = holeCards ?p" "0 \<le> chips q" "0 \<le> bet q" "0 \<le> currentBet s1"
    and pot: "mainPot s1 - mainPot s = chips ?p - chips q" "chips ?p - chips q = bet q - bet ?p"
    and fq: "folded q \<longrightarrow> a = Fold \<or> folded ?p"
    by (simp_all add: actionPost_def Let_def q_def)
  have ct: "chipsTotal s1 = chipsTotal s - chips ?p + chips q"
    using len i2 by (subst chipsTotal_def, subst pl) (simp add: sum_list_map_update chipsTotal_def)
  have bt: "betsTotal s1 = betsTotal s - bet ?p + bet q"
    using len i2 by (subst betsTotal_def, subst pl) (simp add: sum_list_map_update betsTotal_def)
  have pok1: "playersOk s1"
    unfolding playersOk_def
    by (subst pl, rule list_all_update) (use pok q pn in \<open>simp_all add: playersOk_def\<close>)
  have c1: "coreInv T s1"
    using core st ct pot q pok1 len
    by (simp add: coreInv_def sameTable_def deckInv_def winnersOk_def) (simp add: pl)
  obtain p0 p1 where ps: "players s = [p0, p1]" using two_players [OF len] .
  have nf: "\<not> folded p0" "\<not> folded p1" using rest(3) ps by simp_all
  have "?i = 0 \<or> ?i = 1" using i2 by auto
  then have act1: "activePlayers s1 \<noteq> []"
  proof
    assume "?i = 0"
    then have "players s1 = [q, p1]" using pl ps by simp
    then show ?thesis using nf by (simp add: activePlayers_two)
  next
    assume "?i = 1"
    then have "players s1 = [p0, q]" using pl ps by simp
    then show ?thesis using nf by (simp add: activePlayers_two)
  qed
  have "midInv T s1"
    using c1 nro rest st bt pot act1 by (simp add: midInv_def sameTable_def)
  then show ?thesis using post by simp
qed

lemma validRanks_subset: "validRanks xs \<Longrightarrow> set ys \<subseteq> set xs \<Longrightarrow> validRanks ys"
  by (auto simp: validRanks_def list_all_iff)

lemma validRanks_append [simp]: "validRanks (xs @ ys) = (validRanks xs \<and> validRanks ys)"
  by (auto simp: validRanks_def)

lemma validRanks_reveal [simp]: "validRanks (revealCards cs) = validRanks cs"
  by (simp add: validRanks_def revealCards_def list_all_iff)

lemma validRanks_hide [simp]: "validRanks (hideCards cs) = validRanks cs"
  by (simp add: validRanks_def hideCards_def list_all_iff)

lemma withCard_nonempty:
  "0 < length (deck s) \<Longrightarrow> withCard s f = f (last (deck s)) (s\<lparr>deck := butlast (deck s)\<rparr>)"
  by (simp add: withCard_def drawCard_def)

lemma set_butlast2: "set (butlast xs) \<subseteq> set xs"
  by (auto dest: in_set_butlastD)

lemma last_butlast_mem: "0 < length (butlast xs) \<Longrightarrow> last (butlast xs) \<in> set xs"
  by (metis in_set_butlastD last_in_set length_greater_0_conv)

lemma dealFlop_spec:
  assumes "4 \<le> length (deck s)"
  shows "fst (dealFlop s) = None \<and> dealPost 3 Flop s (snd (dealFlop s))"
proof -
  let ?d = "deck s"
  have l: "4 \<le> length ?d" using assms by simp
  have sub: "set (butlast (butlast (butlast (butlast ?d)))) \<subseteq> set ?d"
    using set_butlast2 by (meson order_trans)
  have m1: "last (butlast ?d) \<in> set ?d" using l by (intro last_butlast_mem) simp
  have m2: "last (butlast (butlast ?d)) \<in> set ?d"
    using l last_butlast_mem [of "butlast ?d"] set_butlast2 [of ?d] by auto
  have m3: "last (butlast (butlast (butlast ?d))) \<in> set ?d"
    using l last_butlast_mem [of "butlast (butlast ?d)"] set_butlast2 [of ?d]
      set_butlast2 [of "butlast ?d"] by auto
  have ne: "?d \<noteq> []" "butlast ?d \<noteq> []" "butlast (butlast ?d) \<noteq> []"
    "butlast (butlast (butlast ?d)) \<noteq> []"
    using l by (auto simp flip: length_greater_0_conv)
  show ?thesis
    using l sub m1 m2 m3 ne
    by (simp add: dealFlop_def withCard_nonempty pushCommunity_def pushLog_def dealPost_def)
qed

lemma dealTurn_spec:
  assumes "2 \<le> length (deck s)"
  shows "fst (dealTurn s) = None \<and> dealPost 1 Turn s (snd (dealTurn s))"
proof -
  let ?d = "deck s"
  have l: "2 \<le> length ?d" using assms by simp
  have sub: "set (butlast (butlast ?d)) \<subseteq> set ?d"
    using set_butlast2 by (meson order_trans)
  have m1: "last (butlast ?d) \<in> set ?d" using l by (intro last_butlast_mem) simp
  have ne: "?d \<noteq> []" "butlast ?d \<noteq> []"
    using l by (auto simp flip: length_greater_0_conv)
  show ?thesis
    using l sub m1 ne
    by (simp add: dealTurn_def withCard_nonempty pushCommunity_def pushLog_def dealPost_def)
qed

lemma dealRiver_spec:
  assumes "2 \<le> length (deck s)"
  shows "fst (dealRiver s) = None \<and> dealPost 1 River s (snd (dealRiver s))"
proof -
  let ?d = "deck s"
  have l: "2 \<le> length ?d" using assms by simp
  have sub: "set (butlast (butlast ?d)) \<subseteq> set ?d"
    using set_butlast2 by (meson order_trans)
  have m1: "last (butlast ?d) \<in> set ?d" using l by (intro last_butlast_mem) simp
  have ne: "?d \<noteq> []" "butlast ?d \<noteq> []"
    using l by (auto simp flip: length_greater_0_conv)
  show ?thesis
    using l sub m1 ne
    by (simp add: dealRiver_def withCard_nonempty pushCommunity_def pushLog_def dealPost_def)
qed

lemma resetBets_spec:
  assumes "length (players s) = 2"
  shows "\<exists>j<2. resetBetsForNewStage s
           = Some (None, s\<lparr>currentBet := 0, players := map (\<lambda>p. p\<lparr>bet := 0\<rparr>) (players s),
                            currentPlayerIndex := j\<rparr>)"
proof -
  let ?r = "s\<lparr>currentBet := 0, players := map (\<lambda>p. p\<lparr>bet := 0\<rparr>) (players s),
              currentPlayerIndex := (dealerIndex s + 1) mod length (players s)\<rparr>"
  have "length (players ?r) = 2" using assms by simp
  moreover have "currentPlayerIndex ?r = Suc (dealerIndex ?r) mod 2" using assms by simp
  ultimately obtain j where "j < 2"
    "skipFromDealer ?r = Some (None, ?r\<lparr>currentPlayerIndex := j\<rparr>)"
    using skipFromDealer_two [of ?r] by blast
  then show ?thesis by (auto simp: resetBetsForNewStage_def)
qed

lemma reset_handInv:
  assumes core: "coreInv T s" and pot: "0 \<le> mainPot s"
    and ro: "if roundOver s then mainPot s = 0 \<and> stage s = Showdown
             else stage s \<noteq> Showdown \<and> list_all (\<lambda>p. \<not> folded p) (players s)"
  shows "\<exists>s'. resetBetsForNewStage s = Some (None, s') \<and> handInv T s'
              \<and> currentBet s' = 0 \<and> list_all (\<lambda>p. bet p = 0) (players s')
              \<and> deck s' = deck s \<and> stage s' = stage s \<and> roundOver s' = roundOver s
              \<and> mainPot s' = mainPot s \<and> chipsTotal s' = chipsTotal s
              \<and> winners s' = winners s"
proof -
  have len: "length (players s) = 2" using core by (simp add: coreInv_def)
  then obtain p0 p1 where ps: "players s = [p0, p1]" by (rule two_players)
  from resetBets_spec [OF len] obtain j where j: "j < 2"
    and eq: "resetBetsForNewStage s
           = Some (None, s\<lparr>currentBet := 0, players := map (\<lambda>p. p\<lparr>bet := 0\<rparr>) (players s),
                            currentPlayerIndex := j\<rparr>)"
    by blast
  let ?s' = "s\<lparr>currentBet := 0, players := map (\<lambda>p. p\<lparr>bet := 0\<rparr>) (players s),
              currentPlayerIndex := j\<rparr>"
  have c: "coreInv T ?s'"
    using core j ps by (simp add: coreInv_def playersOk_def winnersOk_def chipsTotal_def)
  have "handInv T ?s'"
    using c ro pot ps by (simp add: handInv_def split: if_splits)
  then show ?thesis using eq ps by (simp add: chipsTotal_def)
qed

lemma stageCards_showdown:
  "stageCards st d c \<Longrightarrow> stageCards Showdown d c'"
  by (cases st) simp_all

lemma endHand_handInv:
  assumes core: "coreInv T s" and pot: "0 \<le> mainPot s" and w: "w < 2"
  shows "handInv T (endHand [w] s) \<and> roundOver (endHand [w] s)
         \<and> currentBet (endHand [w] s) = currentBet s
         \<and> map bet (players (endHand [w] s)) = map bet (players s)
         \<and> deck (endHand [w] s) = deck s"
proof -
  have len: "length (players s) = 2" using core by (simp add: coreInv_def)
  then obtain p0 p1 where ps: "players s = [p0, p1]" by (rule two_players)
  have w01: "w = 0 \<or> w = 1" using w by auto
  have d: "deckInv (s\<lparr>stage := Showdown\<rparr>)"
    using core stageCards_showdown by (auto simp: coreInv_def deckInv_def)
  from w01 show ?thesis
  proof
    assume "w = 0"
    then show ?thesis using core pot ps d
      by (simp add: endHand_def awardPot_def addChips_def setPlayer_def jsRemainder_def
          pushLog_def revealAll_def Let_def handInv_def coreInv_def playersOk_def
          winnersOk_def chipsTotal_def deckInv_def)
  next
    assume "w = 1"
    then show ?thesis using core pot ps d
      by (simp add: endHand_def awardPot_def addChips_def setPlayer_def jsRemainder_def
          pushLog_def revealAll_def Let_def handInv_def coreInv_def playersOk_def
          winnersOk_def chipsTotal_def deckInv_def)
  qed
qed

lemma getBestFiveCardHand_total:
  assumes len: "5 \<le> length cs" and v: "validRanks cs"
  shows "\<exists>h. getBestFiveCardHand cs = Inr h \<and> length h = 5"
proof (cases "length cs = 5")
  case True
  then show ?thesis by (simp add: getBestFiveCardHand_def)
next
  case False
  let ?combos = "getCombinations cs 5"
  have ok: "\<forall>c\<in>set ?combos. length c = 5 \<and> validRanks c"
    using getCombinations_sound [of _ cs 5] validRanks_sub [OF v] by blast
  have "mset (take 5 cs) \<subseteq># mset (take 5 cs) + mset (drop 5 cs)"
    by (rule mset_subset_eq_add_left)
  then have "mset (take 5 cs) \<subseteq># mset (take 5 cs @ drop 5 cs)"
    by (simp only: mset_append)
  then have t: "length (take 5 cs) = 5" "mset (take 5 cs) \<subseteq># mset cs"
    using len by simp_all
  then obtain c0 where c0: "c0 \<in> set ?combos"
    using getCombinations_complete [of "take 5 cs" 5 cs] by blast
  obtain x0 where x0: "getHandValue (sortByRankDesc c0) = Inr x0"
    "15 * of_int (categoryOf (sortByRankDesc c0)) \<le> x0"
    using getHandValue_band [of "sortByRankDesc c0"] ok c0 by auto
  have "1 \<le> categoryOf (sortByRankDesc c0)" by (simp add: categoryOf_def)
  then have "(15::rat) \<le> 15 * of_int (categoryOf (sortByRankDesc c0))" by simp
  then have x0pos: "- 1 < x0" using x0 by simp
  from bestOfCombinations_spec [OF ok, of "- 1" "[]"]
  obtain h where h: "bestOfCombinations ?combos (- 1) [] = Inr h"
    and d: "(h = [] \<and> (\<forall>c\<in>set ?combos. \<forall>x. getHandValue (sortByRankDesc c) = Inr x \<longrightarrow> x \<le> - 1))
      \<or> (\<exists>c\<in>set ?combos. h = sortByRankDesc c \<and>
            (\<exists>x. getHandValue h = Inr x \<and> - 1 < x \<and>
               (\<forall>c'\<in>set ?combos. \<forall>y. getHandValue (sortByRankDesc c') = Inr y \<longrightarrow> y \<le> x)))"
    by blast
  have "\<not> (\<forall>c\<in>set ?combos. \<forall>x. getHandValue (sortByRankDesc c) = Inr x \<longrightarrow> x \<le> - 1)"
    using c0 x0(1) x0pos by force
  with d obtain c where "c \<in> set ?combos" "h = sortByRankDesc c" by blast
  then have "length h = 5" using ok by simp
  then show ?thesis using h False by (simp add: getBestFiveCardHand_def)
qed

lemma evaluateHand_total:
  assumes "5 \<le> length cs" and "validRanks cs"
  shows "\<exists>e. evaluateHand cs = Inr e"
  using getBestFiveCardHand_total [OF assms] evaluateHand_best [OF assms(1)] by blast

lemma awardPot_single:
  assumes "players s = [p0, p1]"
  shows "awardPot [0] s = s\<lparr>players := [p0\<lparr>chips := chips p0 + mainPot s\<rparr>, p1], mainPot := 0\<rparr>"
    and "awardPot [1] s = s\<lparr>players := [p0, p1\<lparr>chips := chips p1 + mainPot s\<rparr>], mainPot := 0\<rparr>"
  using assms
  by (simp_all add: awardPot_def addChips_def setPlayer_def jsRemainder_def Let_def)

lemma awardPot_split:
  assumes "players s = [p0, p1]" and "0 \<le> mainPot s"
  shows "awardPot [0, 1] s
         = s\<lparr>players := [p0\<lparr>chips := chips p0 + mainPot s div 2 + mainPot s mod 2\<rparr>,
                          p1\<lparr>chips := chips p1 + mainPot s div 2\<rparr>], mainPot := 0\<rparr>"
proof -
  have r: "jsRemainder (mainPot s) 2 = mainPot s mod 2"
    using assms(2) by (cases "mainPot s = 0") (simp_all add: jsRemainder_def)
  have m: "mainPot s mod 2 = 0 \<or> mainPot s mod 2 = 1" by presburger
  from m show ?thesis
  proof
    assume "mainPot s mod 2 = 0"
    then show ?thesis using assms r
      by (simp add: awardPot_def addChips_def setPlayer_def Let_def)
  next
    assume "mainPot s mod 2 = 1"
    then show ?thesis using assms r
      by (simp add: awardPot_def addChips_def setPlayer_def Let_def)
  qed
qed

lemma showdown_winners:
  assumes "handEvaluation (players s ! 0) = Some e0"
    and "handEvaluation (players s ! 1) = Some e1"
  shows "collectWinners s (sort_key (valueKey s) [0, 1]) [] (- 1)
         = (if hvalue e1 < hvalue e0 then [0] else if hvalue e0 = hvalue e1 then [0, 1] else [1])"
  using assms by (auto simp: valueKey_def)

lemma showdown_spec:
  assumes core: "coreInv T s" and pot: "0 \<le> mainPot s" and st: "stage s = River"
    and nf: "list_all (\<lambda>p. \<not> folded p) (players s)"
  shows "\<exists>s'. showdown s = (None, s') \<and> coreInv T s' \<and> roundOver s' \<and> mainPot s' = 0
              \<and> stage s' = Showdown \<and> deck s' = deck s \<and> currentBet s' = currentBet s
              \<and> map bet (players s') = map bet (players s)"
proof -
  have len: "length (players s) = 2" using core by (simp add: coreInv_def)
  then obtain p0 p1 where ps: "players s = [p0, p1]" by (rule two_players)
  have nf': "\<not> folded p0" "\<not> folded p1" using nf ps by simp_all
  have dk: "length (communityCards s) = 5" "length (deck s) = 40"
    using core st by (simp_all add: coreInv_def deckInv_def)
  have v: "validRanks (communityCards s)" "validRanks (holeCards p0)" "validRanks (holeCards p1)"
    "0 \<le> chips p0" "0 \<le> chips p1" "0 \<le> bet p0" "0 \<le> bet p1"
    using core ps by (simp_all add: coreInv_def playersOk_def)
  obtain e0 where e0: "evaluateHand (revealCards (holeCards p0) @ communityCards s) = Inr e0"
    using evaluateHand_total [of "revealCards (holeCards p0) @ communityCards s"] dk v by auto
  obtain e1 where e1: "evaluateHand (revealCards (holeCards p1) @ communityCards s) = Inr e1"
    using evaluateHand_total [of "revealCards (holeCards p1) @ communityCards s"] dk v by auto
  define q0 where "q0 = p0\<lparr>holeCards := revealCards (holeCards p0), handEvaluation := Some e0\<rparr>"
  define q1 where "q1 = p1\<lparr>holeCards := revealCards (holeCards p1), handEvaluation := Some e1\<rparr>"
  define s1 where "s1 = revealAll (s\<lparr>stage := Showdown\<rparr>)"
  have act: "activePlayers s1 = [0, 1]"
    using ps nf' by (simp add: s1_def revealAll_def activePlayers_def upt_rec)
  obtain s2 where s2: "evaluatePlayers [0, 1] s1 = (None, s2)"
    and p2: "players s2 = [q0, q1]" and m2: "mainPot s2 = mainPot s"
    and o2: "deck s2 = deck s" "communityCards s2 = communityCards s" "stage s2 = Showdown"
      "currentPlayerIndex s2 = currentPlayerIndex s" "dealerIndex s2 = dealerIndex s"
      "minBet s2 = minBet s" "currentBet s2 = currentBet s"
    using ps e0 e1
    by (simp add: s1_def revealAll_def Let_def setPlayer_def pushLog_def q0_def q1_def)
  define ws where "ws = (if hvalue e1 < hvalue e0 then [0] else if hvalue e0 = hvalue e1
                         then [0, 1] else [1::nat])"
  have w: "collectWinners s2 (sort_key (valueKey s2) [0, 1]) [] (- 1) = ws"
    unfolding ws_def by (rule showdown_winners) (simp_all add: p2 q0_def q1_def)
  have m2': "0 \<le> mainPot s2" using pot m2 by simp
  obtain c0 c1 where aw: "awardPot ws s2 = s2\<lparr>players := [q0\<lparr>chips := c0\<rparr>, q1\<lparr>chips := c1\<rparr>],
                                              mainPot := 0\<rparr>"
    and c: "chips q0 \<le> c0" "chips q1 \<le> c1" "c0 + c1 = chips q0 + chips q1 + mainPot s2"
  proof -
    have "ws = [0] \<or> ws = [1] \<or> ws = [0, 1]" by (simp add: ws_def)
    then consider "ws = [0]" | "ws = [1]" | "ws = [0, 1]" by blast
    then show ?thesis
    proof cases
      case 1
      have "q0\<lparr>chips := chips q0 + mainPot s2\<rparr> = q0\<lparr>chips := chips q0 + mainPot s2\<rparr>"
        "q1 = q1\<lparr>chips := chips q1\<rparr>" by simp_all
      then show ?thesis using that [of "chips q0 + mainPot s2" "chips q1"]
          awardPot_single(1) [OF p2] m2' 1 by simp
    next
      case 2
      have "q0 = q0\<lparr>chips := chips q0\<rparr>" by simp
      then show ?thesis using that [of "chips q0" "chips q1 + mainPot s2"]
          awardPot_single(2) [OF p2] m2' 2 by simp
    next
      case 3
      have "0 \<le> mainPot s2 div 2" "0 \<le> mainPot s2 mod 2"
        "mainPot s2 div 2 + mainPot s2 mod 2 + mainPot s2 div 2 = mainPot s2"
        using m2' by presburger+
      then show ?thesis
        using that [of "chips q0 + mainPot s2 div 2 + mainPot s2 mod 2"
            "chips q1 + mainPot s2 div 2"]
          awardPot_split [OF p2 m2'] 3 by simp
    qed
  qed
  have wok: "ws \<in> set [[], [0], [1], [0, 1]]" by (simp add: ws_def)
  have sd: "showdown s = (None,
      (if length ws = 1
       then pushLog (name (players ((awardPot ws s2)\<lparr>winners := ws\<rparr>) ! (ws ! 0)) @ '' wins ''
              @ toString (mainPot ((awardPot ws s2)\<lparr>winners := ws\<rparr>)) @ '' with ''
              @ winnerDescription ((awardPot ws s2)\<lparr>winners := ws\<rparr>) (ws ! 0))
              ((awardPot ws s2)\<lparr>winners := ws\<rparr>)
       else pushLog (''Pot split between ''
              @ joinNames (map (\<lambda>w. name (players ((awardPot ws s2)\<lparr>winners := ws\<rparr>) ! w)) ws))
              ((awardPot ws s2)\<lparr>winners := ws\<rparr>))\<lparr>roundOver := True\<rparr>)"
    using act s2 w
    by (simp add: showdown_def Let_def andThen_def s1_def [symmetric])
  have d: "deckInv (s\<lparr>stage := Showdown\<rparr>)"
    using core stageCards_showdown by (auto simp: coreInv_def deckInv_def)
  show ?thesis
    unfolding sd aw
    using core ps c p2 m2 o2 v wok d
    by (simp add: coreInv_def playersOk_def winnersOk_def chipsTotal_def deckInv_def
        pushLog_def q0_def q1_def)
qed

lemma coreInv_cpi: "coreInv T s \<Longrightarrow> j < 2 \<Longrightarrow> coreInv T (s\<lparr>currentPlayerIndex := j\<rparr>)"
  by (simp add: coreInv_def playersOk_def winnersOk_def)

lemma midInv_cpi: "midInv T s \<Longrightarrow> j < 2 \<Longrightarrow> midInv T (s\<lparr>currentPlayerIndex := j\<rparr>)"
  by (simp add: midInv_def coreInv_cpi)

lemma midInv_pot: "midInv T s \<Longrightarrow> 0 \<le> mainPot s"
proof -
  assume m: "midInv T s"
  then have len: "length (players s) = 2" by (simp add: midInv_def coreInv_def)
  then obtain p0 p1 where ps: "players s = [p0, p1]" by (rule two_players)
  have "0 \<le> bet p0" "0 \<le> bet p1" "bet p0 + bet p1 \<le> mainPot s"
    using m ps by (simp_all add: midInv_def coreInv_def playersOk_def betsTotal_def)
  then show ?thesis by simp
qed

lemma deal_handInv:
  assumes mid: "midInv T s" and nf: "list_all (\<lambda>p. \<not> folded p) (players s)"
    and dp: "dealPost n st s s1" and sc: "stageCards st (length (deck s1)) (length (communityCards s1))"
    and st: "st \<noteq> Showdown"
  shows "\<exists>s'. resetBetsForNewStage s1 = Some (None, s') \<and> handInv T s'
              \<and> currentBet s' = 0 \<and> list_all (\<lambda>p. bet p = 0) (players s')"
proof -
  have core: "coreInv T s" and nro: "\<not> roundOver s" using mid by (simp_all add: midInv_def)
  have v1: "validRanks (deck s1)"
    using core dp validRanks_subset [of "deck s" "deck s1"] by (simp add: coreInv_def dealPost_def)
  have "validRanks (communityCards s @ deck s)" using core by (simp add: coreInv_def)
  then have v2: "validRanks (communityCards s1)"
    using dp validRanks_subset [of "communityCards s @ deck s" "communityCards s1"]
    by (simp add: dealPost_def)
  have c1: "coreInv T s1"
    using core dp sc v1 v2
    by (simp add: coreInv_def dealPost_def deckInv_def playersOk_def winnersOk_def chipsTotal_def)
  have "0 \<le> mainPot s1" using midInv_pot [OF mid] dp by (simp add: dealPost_def)
  moreover have "if roundOver s1 then mainPot s1 = 0 \<and> stage s1 = Showdown
             else stage s1 \<noteq> Showdown \<and> list_all (\<lambda>p. \<not> folded p) (players s1)"
    using nro nf dp st by (simp add: dealPost_def)
  ultimately show ?thesis using reset_handInv [OF c1] by blast
qed

lemma moveToNextStage_handInv:
  assumes mid: "midInv T s" and nf: "list_all (\<lambda>p. \<not> folded p) (players s)"
  shows "\<exists>s'. moveToNextStage s = Some (None, s') \<and> handInv T s'
              \<and> currentBet s' = 0 \<and> list_all (\<lambda>p. bet p = 0) (players s')"
proof -
  have core: "coreInv T s" and nro: "\<not> roundOver s" and ns: "stage s \<noteq> Showdown"
    using mid by (simp_all add: midInv_def)
  have dk: "stageCards (stage s) (length (deck s)) (length (communityCards s))"
    using core by (simp add: coreInv_def deckInv_def)
  show ?thesis
  proof (cases "stage s")
    case Preflop
    then have l: "4 \<le> length (deck s)" using dk by simp
    from dealFlop_spec [OF l] have f: "fst (dealFlop s) = None"
      and dp: "dealPost 3 Flop s (snd (dealFlop s))" by simp_all
    have "stageCards Flop (length (deck (snd (dealFlop s))))
            (length (communityCards (snd (dealFlop s))))"
      using dp dk Preflop by (simp add: dealPost_def)
    from deal_handInv [OF mid nf dp this] show ?thesis
      using f Preflop by (simp add: moveToNextStage_def Let_def)
  next
    case Flop
    then have l: "2 \<le> length (deck s)" using dk by simp
    from dealTurn_spec [OF l] have f: "fst (dealTurn s) = None"
      and dp: "dealPost 1 Turn s (snd (dealTurn s))" by simp_all
    have "stageCards Turn (length (deck (snd (dealTurn s))))
            (length (communityCards (snd (dealTurn s))))"
      using dp dk Flop by (simp add: dealPost_def)
    from deal_handInv [OF mid nf dp this] show ?thesis
      using f Flop by (simp add: moveToNextStage_def Let_def)
  next
    case Turn
    then have l: "2 \<le> length (deck s)" using dk by simp
    from dealRiver_spec [OF l] have f: "fst (dealRiver s) = None"
      and dp: "dealPost 1 River s (snd (dealRiver s))" by simp_all
    have "stageCards River (length (deck (snd (dealRiver s))))
            (length (communityCards (snd (dealRiver s))))"
      using dp dk Turn by (simp add: dealPost_def)
    from deal_handInv [OF mid nf dp this] show ?thesis
      using f Turn by (simp add: moveToNextStage_def Let_def)
  next
    case River
    from showdown_spec [OF core midInv_pot [OF mid] River nf]
    obtain s1 where s1: "showdown s = (None, s1)" "coreInv T s1" "roundOver s1"
      "mainPot s1 = 0" "stage s1 = Showdown"
      by blast
    then have "\<exists>s'. resetBetsForNewStage s1 = Some (None, s') \<and> handInv T s'
              \<and> currentBet s' = 0 \<and> list_all (\<lambda>p. bet p = 0) (players s')"
      using reset_handInv [of T s1] by auto
    then show ?thesis using s1(1) River by (simp add: moveToNextStage_def Let_def)
  next
    case Showdown
    then show ?thesis using ns by simp
  qed
qed

lemma checkBettingRoundComplete_handInv:
  assumes mid: "midInv T s"
  shows "\<exists>s'. checkBettingRoundComplete s = Some (None, s') \<and> handInv T s'
              \<and> betsKeptOrReset s s'"
proof -
  have core: "coreInv T s" and nro: "\<not> roundOver s" and ns: "stage s \<noteq> Showdown"
    and bt: "betsTotal s \<le> mainPot s" and ne: "activePlayers s \<noteq> []"
    using mid by (simp_all add: midInv_def)
  have len: "length (players s) = 2" using core by (simp add: coreInv_def)
  then obtain p0 p1 where ps: "players s = [p0, p1]" by (rule two_players)
  have ap: "activePlayers s = (if folded p0 then [] else [0]) @ (if folded p1 then [] else [1])"
    using ps by (rule activePlayers_two)
  consider (one) w where "w < 2" "activePlayers s = [w]"
    | (both) "activePlayers s = [0, 1]" "\<not> folded p0" "\<not> folded p1"
    using ap ne by (cases "folded p0"; cases "folded p1") auto
  then show ?thesis
  proof cases
    case one
    from endHand_handInv [OF core midInv_pot [OF mid] one(1)] show ?thesis
      using one(2) by (simp add: checkBettingRoundComplete_def Let_def betsKeptOrReset_def)
  next
    case both
    have nf: "list_all (\<lambda>p. \<not> folded p) (players s)" using both ps by simp
    show ?thesis
    proof (cases "list_all (\<lambda>i. bet (players s ! i) = currentBet s \<or> chips (players s ! i) = 0)
                    (activePlayers s)")
      case True
      from moveToNextStage_handInv [OF mid nf] show ?thesis
        using True both(1) by (auto simp: checkBettingRoundComplete_def Let_def betsKeptOrReset_def)
    next
      case False
      have "handInv T s" using core nro bt ns nf by (simp add: handInv_def)
      moreover have "checkBettingRoundComplete s = Some (None, s)"
        using False both(1) by (auto simp add: checkBettingRoundComplete_def Let_def)
      ultimately show ?thesis by (simp add: betsKeptOrReset_def)
    qed
  qed
qed

lemma nextPlayer_handInv:
  assumes mid: "midInv T s"
  shows "\<exists>s'. nextPlayer s = Some (None, s') \<and> handInv T s' \<and> betsKeptOrReset s s'"
proof -
  have "length (players s) = 2" "currentPlayerIndex s < 2"
    using mid by (simp_all add: midInv_def coreInv_def)
  then obtain j where j: "j < 2"
    "nextPlayerLoop (currentPlayerIndex s) s = Some (None, s\<lparr>currentPlayerIndex := j\<rparr>)"
    using nextPlayerLoop_two [of s] by blast
  from checkBettingRoundComplete_handInv [OF midInv_cpi [OF mid j(1)]]
  show ?thesis using j(2) by (simp add: nextPlayer_def betsKeptOrReset_def)
qed

lemma playerAction_handInv:
  assumes inv: "handInv T s" and nro: "\<not> roundOver s"
  shows "(a = Check \<and> currentBet s > bet (players s ! currentPlayerIndex s)
            \<and> playerAction a amt s = Some (Some CannotCheck, s))
         \<or> (\<not> (a = Check \<and> currentBet s > bet (players s ! currentPlayerIndex s))
            \<and> (\<exists>s'. playerAction a amt s = Some (None, s') \<and> handInv T s'
                  \<and> (a = Raise \<longrightarrow> currentBet s' = bet (players s' ! currentPlayerIndex s))))"
proof -
  have core: "coreInv T s" using inv by (simp add: handInv_def)
  let ?i = "currentPlayerIndex s"
  have len: "length (players s) = 2" and i2: "?i < 2" using core by (simp_all add: coreInv_def)
  have pok: "playersOk s" using core by (simp add: coreInv_def)
  then have pn: "0 \<le> chips (players s ! ?i)" "0 \<le> bet (players s ! ?i)"
    using len i2 by (simp_all add: playersOk_def list_all_length)
  have cb: "0 \<le> currentBet s" "0 \<le> minBet s" using core by (simp_all add: coreInv_def)
  have spec: "case actionSwitch a amt s of
           Inl e \<Rightarrow> e = CannotCheck \<and> a = Check
                    \<and> currentBet s > bet (players s ! currentPlayerIndex s)
         | Inr s1 \<Rightarrow> actionPost a s s1
                    \<and> (a = Check \<longrightarrow> \<not> currentBet s > bet (players s ! currentPlayerIndex s))"
    using actionSwitch_spec [of s a amt] pn cb len i2 by simp
  show ?thesis
  proof (cases "actionSwitch a amt s")
    case (Inl e)
    then show ?thesis using spec by (simp add: playerAction_def)
  next
    case (Inr s1)
    then have post: "actionPost a s s1"
      and chk: "a = Check \<longrightarrow> \<not> currentBet s > bet (players s ! ?i)"
      using spec by simp_all
    have mid: "midInv T s1" using action_mid [OF inv nro Inr] by simp
    from nextPlayer_handInv [OF mid] obtain s' where s': "nextPlayer s1 = Some (None, s')"
      "handInv T s'" "betsKeptOrReset s1 s'" by blast
    have l1: "length (players s1) = 2" using mid by (simp add: midInv_def coreInv_def)
    have l': "length (players s') = 2" using s'(2) by (simp add: handInv_def coreInv_def)
    have "currentBet s' = bet (players s' ! ?i)" if r: "a = Raise"
    proof -
      have e1: "currentBet s1 = bet (players s1 ! ?i)"
        using post r by (simp add: actionPost_def Let_def)
      from s'(3) show ?thesis unfolding betsKeptOrReset_def
      proof
        assume k: "currentBet s' = currentBet s1 \<and> map bet (players s') = map bet (players s1)"
        then have "map bet (players s') ! ?i = map bet (players s1) ! ?i" by simp
        then have "bet (players s' ! ?i) = bet (players s1 ! ?i)"
          using i2 l1 l' by simp
        then show ?thesis using k e1 by simp
      next
        assume z: "currentBet s' = 0 \<and> list_all (\<lambda>p. bet p = 0) (players s')"
        then have "bet (players s' ! ?i) = 0" using i2 l' by (simp add: list_all_length)
        then show ?thesis using z by simp
      qed
    qed
    then show ?thesis using Inr s' chk by (simp add: playerAction_def)
  qed
qed

lemma length_shuffleFrom [simp]: "length (shuffleFrom js n d) = length d"
  by (induction n arbitrary: d) (simp_all add: swapCards_def)

lemma mset_shuffleFrom:
  "n < length d \<Longrightarrow> list_all (\<lambda>i. js i \<le> i) [1..<Suc n] \<Longrightarrow> mset (shuffleFrom js n d) = mset d"
proof (induction n arbitrary: d)
  case 0
  then show ?case by simp
next
  case (Suc n)
  have j: "js (Suc n) \<le> Suc n" using Suc.prems(2) by simp
  have m: "mset (swapCards (Suc n) (js (Suc n)) d) = mset d"
    unfolding swapCards_def using Suc.prems(1) j by (intro mset_swap) simp_all
  have "list_all (\<lambda>i. js i \<le> i) [1..<Suc n]" using Suc.prems(2) by simp
  then have "mset (shuffleFrom js n (swapCards (Suc n) (js (Suc n)) d))
        = mset (swapCards (Suc n) (js (Suc n)) d)"
    using Suc.prems(1) by (intro Suc.IH) (simp_all add: swapCards_def)
  then show ?case using m by simp
qed

lemma orderedDeck_props: "length orderedDeck = 52" "validRanks orderedDeck"
  by (simp_all add: orderedDeck_def SUITS_def RANKS_def newCard_def validRanks_def)

lemma createShuffledDeck_length [simp]: "length (createShuffledDeck js) = 52"
  by (simp add: createShuffledDeck_def orderedDeck_props)

lemma createShuffledDeck_valid:
  assumes "validSwaps js"
  shows "validRanks (createShuffledDeck js)"
proof -
  have "mset (createShuffledDeck js) = mset orderedDeck"
    unfolding createShuffledDeck_def
    using assms by (intro mset_shuffleFrom) (simp_all add: orderedDeck_props validSwaps_def)
  then have "set (createShuffledDeck js) = set orderedDeck" by (rule mset_eq_setD)
  then show ?thesis using orderedDeck_props(2) by (simp add: validRanks_def list_all_iff)
qed

lemma postBlind_spec:
  assumes "i < length (players s)"
  shows "fst (postBlind i amt s) = None
     \<and> players (snd (postBlind i amt s))
         = (players s)[i := (players s ! i)\<lparr>bet := min amt (chips (players s ! i)),
               chips := chips (players s ! i) - min amt (chips (players s ! i))\<rparr>]
     \<and> mainPot (snd (postBlind i amt s)) = mainPot s + min amt (chips (players s ! i))
     \<and> deck (snd (postBlind i amt s)) = deck s
     \<and> communityCards (snd (postBlind i amt s)) = communityCards s
     \<and> stage (snd (postBlind i amt s)) = stage s
     \<and> currentPlayerIndex (snd (postBlind i amt s)) = currentPlayerIndex s
     \<and> dealerIndex (snd (postBlind i amt s)) = dealerIndex s
     \<and> minBet (snd (postBlind i amt s)) = minBet s
     \<and> currentBet (snd (postBlind i amt s)) = currentBet s
     \<and> winners (snd (postBlind i amt s)) = winners s
     \<and> roundOver (snd (postBlind i amt s)) = roundOver s"
  using assms by (simp add: postBlind_def Let_def setPlayer_def pushLog_def)

lemma dealHoleCards_spec:
  assumes ps: "players s = [q0, q1]" and l: "4 \<le> length (deck s)"
  shows "fst (dealHoleCards s) = None
     \<and> length (players (snd (dealHoleCards s))) = 2
     \<and> map chips (players (snd (dealHoleCards s))) = map chips (players s)
     \<and> map bet (players (snd (dealHoleCards s))) = map bet (players s)
     \<and> map folded (players (snd (dealHoleCards s))) = map folded (players s)
     \<and> (validRanks (deck s)
          \<longrightarrow> list_all (\<lambda>p. validRanks (holeCards p)) (players (snd (dealHoleCards s))))
     \<and> length (deck (snd (dealHoleCards s))) + 4 = length (deck s)
     \<and> set (deck (snd (dealHoleCards s))) \<subseteq> set (deck s)
     \<and> mainPot (snd (dealHoleCards s)) = mainPot s
     \<and> communityCards (snd (dealHoleCards s)) = communityCards s
     \<and> stage (snd (dealHoleCards s)) = stage s
     \<and> currentPlayerIndex (snd (dealHoleCards s)) = currentPlayerIndex s
     \<and> dealerIndex (snd (dealHoleCards s)) = dealerIndex s
     \<and> minBet (snd (dealHoleCards s)) = minBet s
     \<and> currentBet (snd (dealHoleCards s)) = currentBet s
     \<and> winners (snd (dealHoleCards s)) = winners s
     \<and> roundOver (snd (dealHoleCards s)) = roundOver s"
proof -
  let ?d = "deck s"
  have ne: "?d \<noteq> []" "butlast ?d \<noteq> []" "butlast (butlast ?d) \<noteq> []"
    "butlast (butlast (butlast ?d)) \<noteq> []"
    using l by (auto simp flip: length_greater_0_conv)
  have sub: "set (butlast (butlast (butlast (butlast ?d)))) \<subseteq> set ?d"
    using set_butlast2 by (meson order_trans)
  have m0: "last ?d \<in> set ?d" using ne by simp
  have m1: "last (butlast ?d) \<in> set ?d" using l by (intro last_butlast_mem) simp
  have m2: "last (butlast (butlast ?d)) \<in> set ?d"
    using l last_butlast_mem [of "butlast ?d"] set_butlast2 [of ?d] by auto
  have m3: "last (butlast (butlast (butlast ?d))) \<in> set ?d"
    using l last_butlast_mem [of "butlast (butlast ?d)"] set_butlast2 [of ?d]
      set_butlast2 [of "butlast ?d"] by auto
  have r: "validRanks [last ?d, last (butlast ?d)]"
    "validRanks [last (butlast (butlast ?d)), last (butlast (butlast (butlast ?d)))]"
    if v: "validRanks ?d"
    using validRanks_bounds [OF v m0] validRanks_bounds [OF v m1] validRanks_bounds [OF v m2]
      validRanks_bounds [OF v m3] by (simp_all add: validRanks_def)
  show ?thesis
    using ne sub r l
    by (simp add: dealHoleCards_def andThen_def ps upt_rec withCard_nonempty setPlayer_def
        pushLog_def Let_def)
qed

lemma andThen_None: "fst r = None \<Longrightarrow> andThen r f = f (snd r)"
  by (simp add: andThen_def)

lemma blindsAndHoleCards_spec:
  assumes p3: "players s3 = [r0, r1]" and d3: "dealerIndex s3 < 2"
    and l3: "length (deck s3) = 52"
    and nf3: "\<not> folded r0" "\<not> folded r1" and m3: "mainPot s3 = 0"
  shows "\<exists>s. blindsAndHoleCards s3 = (None, s)
       \<and> dealerIndex s = dealerIndex s3
       \<and> bet (players s ! ((dealerIndex s3 + 1) mod 2))
           = min SMALL_BLIND (chips (players s3 ! ((dealerIndex s3 + 1) mod 2)))
       \<and> chips (players s ! ((dealerIndex s3 + 1) mod 2))
           = chips (players s3 ! ((dealerIndex s3 + 1) mod 2))
             - min SMALL_BLIND (chips (players s3 ! ((dealerIndex s3 + 1) mod 2)))
       \<and> bet (players s ! ((dealerIndex s3 + 2) mod 2))
           = min BIG_BLIND (chips (players s3 ! ((dealerIndex s3 + 2) mod 2)))
       \<and> chips (players s ! ((dealerIndex s3 + 2) mod 2))
           = chips (players s3 ! ((dealerIndex s3 + 2) mod 2))
             - min BIG_BLIND (chips (players s3 ! ((dealerIndex s3 + 2) mod 2)))
       \<and> mainPot s = min SMALL_BLIND (chips (players s3 ! ((dealerIndex s3 + 1) mod 2)))
                     + min BIG_BLIND (chips (players s3 ! ((dealerIndex s3 + 2) mod 2)))
       \<and> currentBet s = BIG_BLIND
       \<and> currentPlayerIndex s = ((dealerIndex s3 + 2) mod 2 + 1) mod 2
       \<and> length (players s) = 2
       \<and> list_all (\<lambda>p. \<not> folded p) (players s)
       \<and> stage s = stage s3 \<and> roundOver s = roundOver s3
       \<and> communityCards s = communityCards s3 \<and> winners s = winners s3
       \<and> minBet s = minBet s3
       \<and> length (deck s) = 48
       \<and> (validRanks (deck s3)
            \<longrightarrow> validRanks (deck s) \<and> list_all (\<lambda>p. validRanks (holeCards p)) (players s))"
proof -
  define sb where "sb = (dealerIndex s3 + 1) mod 2"
  define bb where "bb = (dealerIndex s3 + 2) mod 2"
  have d2: "sb < 2" "bb < 2" unfolding sb_def bb_def by presburger+
  have sbbb: "(sb = 0 \<and> bb = 1) \<or> (sb = 1 \<and> bb = 0)"
    unfolding sb_def bb_def by presburger
  define s4 where "s4 = snd (postBlind sb SMALL_BLIND s3)"
  define s5 where "s5 = snd (postBlind bb BIG_BLIND s4)"
  define s6 where "s6 = snd (dealHoleCards (s5\<lparr>currentBet := BIG_BLIND\<rparr>))"
  have b4: "fst (postBlind sb SMALL_BLIND s3) = None"
    using postBlind_spec [of sb s3 SMALL_BLIND] d2 p3 by simp
  note pb4 = postBlind_spec [of sb s3 SMALL_BLIND, folded s4_def]
  have p4: "players s4 = (players s3)[sb := (players s3 ! sb)\<lparr>bet := min SMALL_BLIND (chips (players s3 ! sb)),
               chips := chips (players s3 ! sb) - min SMALL_BLIND (chips (players s3 ! sb))\<rparr>]"
    and f4: "mainPot s4 = min SMALL_BLIND (chips (players s3 ! sb))" "deck s4 = deck s3"
      "communityCards s4 = communityCards s3" "stage s4 = stage s3"
      "dealerIndex s4 = dealerIndex s3" "minBet s4 = minBet s3"
      "winners s4 = winners s3" "roundOver s4 = roundOver s3"
    using pb4 d2 p3 m3 by simp_all
  have l4: "length (players s4) = 2" by (simp add: p4 p3 del: list_update.simps)
  have b5: "fst (postBlind bb BIG_BLIND s4) = None"
    using postBlind_spec [of bb s4 BIG_BLIND] d2 l4 by simp
  note pb5 = postBlind_spec [of bb s4 BIG_BLIND, folded s5_def]
  have p5: "players s5 = (players s4)[bb := (players s4 ! bb)\<lparr>bet := min BIG_BLIND (chips (players s4 ! bb)),
               chips := chips (players s4 ! bb) - min BIG_BLIND (chips (players s4 ! bb))\<rparr>]"
    and f5: "mainPot s5 = mainPot s4 + min BIG_BLIND (chips (players s4 ! bb))"
      "deck s5 = deck s3"
      "communityCards s5 = communityCards s3" "stage s5 = stage s3"
      "dealerIndex s5 = dealerIndex s3" "minBet s5 = minBet s3"
      "winners s5 = winners s3" "roundOver s5 = roundOver s3"
    using pb5 d2 l4 f4 by simp_all
  have l5: "length (players s5) = 2" by (simp add: p5 l4 del: list_update.simps)
  then obtain q0 q1 where q: "players (s5\<lparr>currentBet := BIG_BLIND\<rparr>) = [q0, q1]"
    using two_players [of "s5\<lparr>currentBet := BIG_BLIND\<rparr>"] by auto
  have l52: "4 \<le> length (deck (s5\<lparr>currentBet := BIG_BLIND\<rparr>))" by (simp add: f5 l3)
  note dh = dealHoleCards_spec [OF q l52, folded s6_def]
  have b6: "fst (dealHoleCards (s5\<lparr>currentBet := BIG_BLIND\<rparr>)) = None"
    using dealHoleCards_spec [OF q l52] by simp
  have n2: "length (players s3) = 2" by (simp add: p3)
  have eq: "blindsAndHoleCards s3 = (None, pushLog (''Blinds posted: Small blind '' @ toString SMALL_BLIND
                    @ '', Big blind '' @ toString BIG_BLIND)
                    (s6\<lparr>currentPlayerIndex := (bb + 1) mod 2\<rparr>))"
    unfolding blindsAndHoleCards_def Let_def n2 sb_def [symmetric] bb_def [symmetric]
    apply (simp only: andThen_None [OF b4] s4_def [symmetric])
    apply (simp only: andThen_None [OF b5] s5_def [symmetric])
    apply (simp only: andThen_None [OF b6] s6_def [symmetric])
    done
  have c6: "map chips (players s6) = map chips (players s5)"
    and bt6: "map bet (players s6) = map bet (players s5)"
    and fo6: "map folded (players s6) = map folded (players s5)"
    and l6: "length (players s6) = 2"
    using dh by simp_all
  have nth6: "chips (players s6 ! k) = chips (players s5 ! k)"
    "bet (players s6 ! k) = bet (players s5 ! k)"
    "folded (players s6 ! k) = folded (players s5 ! k)" if "k < 2" for k
    using that l5 l6 nth_map [of k "players s6" chips] nth_map [of k "players s5" chips]
      nth_map [of k "players s6" bet] nth_map [of k "players s5" bet]
      nth_map [of k "players s6" folded] nth_map [of k "players s5" folded] c6 bt6 fo6
    by simp_all
  have vals: "bet (players s5 ! sb) = min SMALL_BLIND (chips (players s3 ! sb))"
    "chips (players s5 ! sb) = chips (players s3 ! sb) - min SMALL_BLIND (chips (players s3 ! sb))"
    "bet (players s5 ! bb) = min BIG_BLIND (chips (players s3 ! bb))"
    "chips (players s5 ! bb) = chips (players s3 ! bb) - min BIG_BLIND (chips (players s3 ! bb))"
    "mainPot s5 = min SMALL_BLIND (chips (players s3 ! sb)) + min BIG_BLIND (chips (players s3 ! bb))"
    "\<not> folded (players s5 ! 0)" "\<not> folded (players s5 ! 1)"
    using sbbb nf3 by (auto simp: p5 p4 p3 f5 f4)
  obtain t0 t1 where t: "players s6 = [t0, t1]" using two_players [OF l6] .
  have "\<not> folded t0" "\<not> folded t1" using nth6(3) [of 0] nth6(3) [of 1] vals t by simp_all
  then have la: "list_all (\<lambda>p. \<not> folded p) (players s6)"
    using t by simp
  have vh: "list_all (\<lambda>p. validRanks (holeCards p)) (players s6)" if "validRanks (deck s3)"
    using dh that f5 by simp
  have vd: "validRanks (deck s6)" if "validRanks (deck s3)"
    using dh validRanks_subset [of "deck s3" "deck s6"] that f5 by simp
  have ld: "length (deck s6) = 48" using dh f5 l3 by simp
  have fr: "stage s6 = stage s3" "roundOver s6 = roundOver s3"
    "communityCards s6 = communityCards s3" "winners s6 = winners s3" "minBet s6 = minBet s3"
    "dealerIndex s6 = dealerIndex s3" "currentBet s6 = BIG_BLIND" "mainPot s6 = mainPot s5"
    using dh f5 by simp_all
  show ?thesis
    unfolding eq sb_def [symmetric] bb_def [symmetric]
    using la l6 fr vh vd ld vals nth6 [OF d2(1)] nth6 [OF d2(2)]
    by (simp add: pushLog_def)
qed



lemma less_two: "(i::nat) < 2 \<Longrightarrow> i = 0 \<or> i = 1"
  by auto

lemma blind_arith:
  fixes c0 c1 :: int
  assumes "0 \<le> c0" and "0 \<le> c1" and "b0 = min x c0" and "k0 = c0 - min x c0"
    and "b1 = min y c1" and "k1 = c1 - min y c1" and "m = min x c0 + min y c1"
    and "0 \<le> x" and "0 \<le> y"
  shows "0 \<le> k0 \<and> 0 \<le> k1 \<and> 0 \<le> b0 \<and> 0 \<le> b1 \<and> m + (k0 + k1) = c0 + c1 \<and> b0 + b1 \<le> m"
  using assms by (simp add: min_def)

lemma blinds_nonneg: "0 \<le> SMALL_BLIND" "0 \<le> BIG_BLIND"
  by (simp_all add: SMALL_BLIND_def BIG_BLIND_def)

lemma startHand_spec:
  assumes len: "length (players s0) = 2"
  shows "\<exists>s. startHand js s0 = (None, s) \<and> blindsPosted s0 s \<and> length (players s) = 2
             \<and> list_all (\<lambda>p. \<not> folded p) (players s) \<and> stage s = Preflop \<and> \<not> roundOver s
             \<and> communityCards s = [] \<and> winners s = [] \<and> minBet s = minBet s0
             \<and> length (deck s) = 48
             \<and> (validSwaps js
                  \<longrightarrow> validRanks (deck s) \<and> list_all (\<lambda>p. validRanks (holeCards p)) (players s))"
proof -
  obtain p0 p1 where ps: "players s0 = [p0, p1]" using len by (rule two_players)
  define r0 where "r0 = p0\<lparr>bet := 0, folded := False, holeCards := [], handEvaluation := None\<rparr>"
  define r1 where "r1 = p1\<lparr>bet := 0, folded := False, holeCards := [], handEvaluation := None\<rparr>"
  define s3 where "s3 = resetHand js s0"
  have p3: "players s3 = [r0, r1]"
    and d3: "dealerIndex s3 = (dealerIndex s0 + 1) mod 2"
    and f3: "deck s3 = createShuffledDeck js" "mainPot s3 = 0" "stage s3 = Preflop"
      "\<not> roundOver s3" "communityCards s3 = []" "winners s3 = []" "minBet s3 = minBet s0"
    by (simp_all add: s3_def resetHand_def Let_def ps r0_def r1_def numeral_2_eq_2)
  have d32: "dealerIndex s3 < 2" unfolding d3 by presburger
  have l3: "length (deck s3) = 52" by (simp add: f3)
  have v3: "validRanks (deck s3)" if "validSwaps js"
    using createShuffledDeck_valid [OF that] by (simp add: f3)
  have nf: "\<not> folded r0" "\<not> folded r1" by (simp_all add: r0_def r1_def)
  from blindsAndHoleCards_spec [OF p3 d32 l3 nf f3(2)]
  obtain s where s: "blindsAndHoleCards s3 = (None, s)"
    and dl: "dealerIndex s = dealerIndex s3"
    and sbb: "bet (players s ! ((dealerIndex s3 + 1) mod 2))
           = min SMALL_BLIND (chips (players s3 ! ((dealerIndex s3 + 1) mod 2)))"
    and sbc: "chips (players s ! ((dealerIndex s3 + 1) mod 2))
           = chips (players s3 ! ((dealerIndex s3 + 1) mod 2))
             - min SMALL_BLIND (chips (players s3 ! ((dealerIndex s3 + 1) mod 2)))"
    and bbb: "bet (players s ! ((dealerIndex s3 + 2) mod 2))
           = min BIG_BLIND (chips (players s3 ! ((dealerIndex s3 + 2) mod 2)))"
    and bbc: "chips (players s ! ((dealerIndex s3 + 2) mod 2))
           = chips (players s3 ! ((dealerIndex s3 + 2) mod 2))
             - min BIG_BLIND (chips (players s3 ! ((dealerIndex s3 + 2) mod 2)))"
    and mp: "mainPot s = min SMALL_BLIND (chips (players s3 ! ((dealerIndex s3 + 1) mod 2)))
                     + min BIG_BLIND (chips (players s3 ! ((dealerIndex s3 + 2) mod 2)))"
    and cb: "currentBet s = BIG_BLIND"
    and cp: "currentPlayerIndex s = ((dealerIndex s3 + 2) mod 2 + 1) mod 2"
    and l: "length (players s) = 2"
    and la: "list_all (\<lambda>p. \<not> folded p) (players s)"
    and fr: "stage s = stage s3" "roundOver s = roundOver s3"
      "communityCards s = communityCards s3" "winners s = winners s3" "minBet s = minBet s3"
      "length (deck s) = 48"
    and vr: "validRanks (deck s3)
             \<longrightarrow> validRanks (deck s) \<and> list_all (\<lambda>p. validRanks (holeCards p)) (players s)"
    by blast
  have c3: "chips (players s3 ! k) = chips (players s0 ! k)" if "k < 2" for k
    using that less_two [of k] by (auto simp: p3 ps r0_def r1_def)
  have i1: "(dealerIndex s3 + 1) mod 2 < 2" and i2: "(dealerIndex s3 + 2) mod 2 < 2"
    by presburger+
  have bp: "blindsPosted s0 s"
    unfolding blindsPosted_def Let_def dl c3 [OF i1, symmetric] c3 [OF i2, symmetric]
    using d3 sbb sbc bbb bbc mp cb cp by (intro conjI)
  have vv: "validSwaps js
            \<longrightarrow> validRanks (deck s) \<and> list_all (\<lambda>p. validRanks (holeCards p)) (players s)"
    using vr v3 by blast
  have e: "startHand js s0 = (None, s)" using s by (simp add: startHand_def s3_def)
  have "stage s = Preflop" "\<not> roundOver s" "communityCards s = []" "winners s = []"
    "minBet s = minBet s0"
    using fr f3 by simp_all
  with e bp l la fr(6) vv show ?thesis by blast
qed

lemma blindsPosted_totals:
  assumes bp: "blindsPosted s0 s" and ps: "players s0 = [p0, p1]" and q: "players s = [q0, q1]"
    and ch: "0 \<le> chips p0" "0 \<le> chips p1"
  shows "0 \<le> chips q0 \<and> 0 \<le> chips q1 \<and> 0 \<le> bet q0 \<and> 0 \<le> bet q1
    \<and> mainPot s + (chips q0 + chips q1) = chips p0 + chips p1
    \<and> bet q0 + bet q1 \<le> mainPot s"
proof -
  define d where "d = dealerIndex s"
  have "(d + 1) mod 2 = 0 \<and> (d + 2) mod 2 = 1 \<or> (d + 1) mod 2 = 1 \<and> (d + 2) mod 2 = 0"
    by presburger
  then show ?thesis
  proof (elim disjE conjE)
    assume a: "(d + 1) mod 2 = 0" "(d + 2) mod 2 = 1"
    have e: "bet q0 = min SMALL_BLIND (chips p0)"
      "chips q0 = chips p0 - min SMALL_BLIND (chips p0)"
      "bet q1 = min BIG_BLIND (chips p1)" "chips q1 = chips p1 - min BIG_BLIND (chips p1)"
      "mainPot s = min SMALL_BLIND (chips p0) + min BIG_BLIND (chips p1)"
      using bp [unfolded blindsPosted_def Let_def, folded d_def, unfolded a]
      by (simp_all add: q ps)
    from blind_arith [OF ch e(1,2,3,4,5) blinds_nonneg] show ?thesis .
  next
    assume a: "(d + 1) mod 2 = 1" "(d + 2) mod 2 = 0"
    have e: "bet q1 = min SMALL_BLIND (chips p1)"
      "chips q1 = chips p1 - min SMALL_BLIND (chips p1)"
      "bet q0 = min BIG_BLIND (chips p0)" "chips q0 = chips p0 - min BIG_BLIND (chips p0)"
      "mainPot s = min SMALL_BLIND (chips p1) + min BIG_BLIND (chips p0)"
      using bp [unfolded blindsPosted_def Let_def, folded d_def, unfolded a]
      by (simp_all add: q ps)
    from blind_arith [OF ch(2) ch(1) e(1,2,3,4,5) blinds_nonneg] show ?thesis
      by (simp add: add.commute)
  qed
qed

lemma startHand_handInv:
  assumes t: "tableOk s0" and sw: "validSwaps js"
  shows "\<exists>s. startHand js s0 = (None, s) \<and> handInv (chipsTotal s0) s \<and> \<not> roundOver s
             \<and> blindsPosted s0 s \<and> stage s = Preflop \<and> length (deck s) = 48"
proof -
  have len: "length (players s0) = 2" using t by (simp add: tableOk_def)
  then obtain p0 p1 where ps: "players s0 = [p0, p1]" by (rule two_players)
  have ch: "0 \<le> chips p0" "0 \<le> chips p1" and mb: "minBet s0 = MIN_BET"
    using t ps by (simp_all add: tableOk_def)
  from startHand_spec [OF len, of js] sw
  obtain s where s: "startHand js s0 = (None, s)" and bp: "blindsPosted s0 s"
    and l: "length (players s) = 2" and la: "list_all (\<lambda>p. \<not> folded p) (players s)"
    and fr: "stage s = Preflop" "\<not> roundOver s" "communityCards s = []" "winners s = []"
      "minBet s = minBet s0" "length (deck s) = 48" "validRanks (deck s)"
    and vh: "list_all (\<lambda>p. validRanks (holeCards p)) (players s)"
    by blast
  obtain q0 q1 where q: "players s = [q0, q1]" using two_players [OF l] .
  from blindsPosted_totals [OF bp ps q ch]
  have vals: "0 \<le> chips q0" "0 \<le> chips q1" "0 \<le> bet q0" "0 \<le> bet q1"
    "mainPot s + (chips q0 + chips q1) = chips p0 + chips p1"
    "bet q0 + bet q1 \<le> mainPot s"
    by simp_all
  have cb: "currentBet s = BIG_BLIND" and cp: "currentPlayerIndex s = ((dealerIndex s + 2) mod 2 + 1) mod 2"
    and dl: "dealerIndex s = (dealerIndex s0 + 1) mod 2"
    using bp by (simp_all add: blindsPosted_def Let_def)
  have cp2: "currentPlayerIndex s < 2" unfolding cp by presburger
  have d2: "dealerIndex s < 2" unfolding dl by presburger
  have core: "coreInv (chipsTotal s0) s"
    using l cp2 d2 la vh q vals cb fr mb
    by (simp add: coreInv_def playersOk_def winnersOk_def deckInv_def chipsTotal_def ps
        BIG_BLIND_def MIN_BET_def validRanks_def)
  have "handInv (chipsTotal s0) s"
    using core fr vals la q by (simp add: handInv_def betsTotal_def)
  then show ?thesis
    using s bp fr by simp
qed

lemma handState_handInv:
  assumes t: "tableOk s0" and sw: "validSwaps js" and h: "handState js s0 s"
  shows "handInv (chipsTotal s0) s"
  using h
proof (induction rule: handState.induct)
  case (start s)
  from startHand_handInv [OF t sw] obtain s1 where
    e: "startHand js s0 = (None, s1)" and i: "handInv (chipsTotal s0) s1" by blast
  from e start have "s1 = s" by simp
  with i show ?case by simp
next
  case (step s a amt r s')
  from playerAction_handInv [OF step.IH step.hyps(2), of a amt]
  consider (err) "playerAction a amt s = Some (Some CannotCheck, s)"
    | (ok) s1 where "playerAction a amt s = Some (None, s1)" "handInv (chipsTotal s0) s1"
    by blast
  then show ?case
  proof cases
    case err
    with step.hyps(3) have "s' = s" by simp
    with step.IH show ?thesis by simp
  next
    case ok
    with step.hyps(3) have "s' = s1" by simp
    with ok show ?thesis by simp
  qed
qed

section \<open>Hand states and two concrete runs\<close>

lemma startHand_handState:
  assumes t: "tableOk s0" and sw: "validSwaps js"
  shows "startHand js s0 = (None, snd (startHand js s0))"
    and "handState js s0 (snd (startHand js s0))"
proof -
  from startHand_handInv [OF t sw] obtain s where s: "startHand js s0 = (None, s)" by blast
  then show "startHand js s0 = (None, snd (startHand js s0))" by simp
  from s have "handState js s0 s" by (rule handState.start)
  then show "handState js s0 (snd (startHand js s0))" using s by simp
qed

lemma playerAction_handState:
  assumes t: "tableOk s0" and sw: "validSwaps js" and h: "handState js s0 s"
    and nro: "\<not> roundOver s"
  shows "\<exists>r s'. playerAction a amt s = Some (r, s') \<and> handState js s0 s'
               \<and> (r = None \<or> r = Some CannotCheck)"
proof -
  from playerAction_handInv [OF handState_handInv [OF t sw h] nro, of a amt]
  obtain r s' where p: "playerAction a amt s = Some (r, s')"
    and r: "r = None \<or> r = Some CannotCheck"
    by blast
  from h nro p have "handState js s0 s'" by (rule handState.step)
  with p r show ?thesis by blast
qed

lemma playAll_handState:
  assumes t: "tableOk s0" and sw: "validSwaps js"
  shows "handState js s0 s \<Longrightarrow> \<exists>r s'. playAll acts s = Some (r, s') \<and> handState js s0 s'"
proof (induction acts arbitrary: s)
  case Nil
  then show ?case by simp
next
  case (Cons x rest)
  show ?case
  proof (cases "roundOver s")
    case True
    then show ?thesis using Cons.prems by simp
  next
    case False
    from playerAction_handState [OF t sw Cons.prems False, of "fst x" "snd x"]
    obtain r s' where p: "playerAction (fst x) (snd x) s = Some (r, s')"
      and h: "handState js s0 s'"
      by blast
    show ?thesis
    proof (cases "r = None")
      case True
      then show ?thesis using False p Cons.IH [OF h] by simp
    next
      case False
      then show ?thesis using \<open>\<not> roundOver s\<close> p h by auto
    qed
  qed
qed

lemma run_handState:
  assumes t: "tableOk s0" and sw: "validSwaps js" and h: "handState js s0 s"
  shows "handState js s0 (run acts s)"
proof -
  from playAll_handState [OF t sw h, of acts]
  obtain r s' where "playAll acts s = Some (r, s')" "handState js s0 s'" by blast
  then show ?thesis by (simp add: run_def)
qed

lemma validSwaps_identity: "validSwaps identitySwaps"
  by (simp add: validSwaps_def identitySwaps_def list_all_iff)

lemma freshTable_facts:
  "length (players freshTable) = 2" "tableOk freshTable" "dealerIndex freshTable = 1"
  "chips (players freshTable ! 0) = 1000" "chips (players freshTable ! 1) = 1000"
  "chipsTotal freshTable = 2000" "chips (players freshTable ! Suc 0) = 1000"
  by (simp_all add: freshTable_def PokerGame_def newPlayer_def tableOk_def chipsTotal_def)

lemma shortTable_facts:
  "length (players shortTable) = 2" "tableOk shortTable" "dealerIndex shortTable = 1"
  "chips (players shortTable ! 0) = 1000" "chips (players shortTable ! 1) = 8"
  "chipsTotal shortTable = 1008" "chips (players shortTable ! Suc 0) = 8"
  by (simp_all add: shortTable_def PokerGame_def newPlayer_def tableOk_def chipsTotal_def)

lemma blinds_at_dealer_one:
  assumes bp: "blindsPosted s0 s" and d: "dealerIndex s0 = 1"
  shows "dealerIndex s = 0" "currentPlayerIndex s = 1"
    "bet (players s ! 0) = min BIG_BLIND (chips (players s0 ! 0))"
    "bet (players s ! 1) = min SMALL_BLIND (chips (players s0 ! 1))"
    "chips (players s ! 0) = chips (players s0 ! 0) - min BIG_BLIND (chips (players s0 ! 0))"
    "chips (players s ! 1) = chips (players s0 ! 1) - min SMALL_BLIND (chips (players s0 ! 1))"
    "currentBet s = BIG_BLIND"
    "mainPot s = min SMALL_BLIND (chips (players s0 ! 1)) + min BIG_BLIND (chips (players s0 ! 0))"
proof -
  have d0: "dealerIndex s = 0" using bp d by (simp add: blindsPosted_def Let_def)
  show "dealerIndex s = 0" by (rule d0)
  show "currentPlayerIndex s = 1"
    "bet (players s ! 0) = min BIG_BLIND (chips (players s0 ! 0))"
    "bet (players s ! 1) = min SMALL_BLIND (chips (players s0 ! 1))"
    "chips (players s ! 0) = chips (players s0 ! 0) - min BIG_BLIND (chips (players s0 ! 0))"
    "chips (players s ! 1) = chips (players s0 ! 1) - min SMALL_BLIND (chips (players s0 ! 1))"
    "currentBet s = BIG_BLIND"
    "mainPot s = min SMALL_BLIND (chips (players s0 ! 1)) + min BIG_BLIND (chips (players s0 ! 0))"
    using bp by (simp_all add: blindsPosted_def Let_def d0)
qed

lemma firstHand_facts:
  "startHand identitySwaps freshTable = (None, firstHand)"
  "handState identitySwaps freshTable firstHand"
  "\<not> roundOver firstHand" "length (players firstHand) = 2"
  "dealerIndex firstHand = 0" "currentPlayerIndex firstHand = 1"
  "bet (players firstHand ! 0) = 10" "bet (players firstHand ! 1) = 5"
  "chips (players firstHand ! 0) = 990" "chips (players firstHand ! 1) = 995"
  "currentBet firstHand = 10" "mainPot firstHand = 15"
  "stage firstHand = Preflop" "length (deck firstHand) = 48"
proof -
  from startHand_handInv [OF freshTable_facts(2) validSwaps_identity]
  obtain s where s: "startHand identitySwaps freshTable = (None, s)"
    and i: "handInv (chipsTotal freshTable) s" and n: "\<not> roundOver s"
    and bp: "blindsPosted freshTable s" and st: "stage s = Preflop" "length (deck s) = 48"
    by blast
  have e: "firstHand = s" using s by (simp add: firstHand_def)
  show "startHand identitySwaps freshTable = (None, firstHand)" using s e by simp
  show "handState identitySwaps freshTable firstHand"
    using handState.start [OF s] e by simp
  show "\<not> roundOver firstHand" using n e by simp
  show "length (players firstHand) = 2" using i e by (simp add: handInv_def coreInv_def)
  note b = blinds_at_dealer_one [OF bp freshTable_facts(3)]
  show "dealerIndex firstHand = 0" "currentPlayerIndex firstHand = 1"
    "bet (players firstHand ! 0) = 10" "bet (players firstHand ! 1) = 5"
    "chips (players firstHand ! 0) = 990" "chips (players firstHand ! 1) = 995"
    "currentBet firstHand = 10" "mainPot firstHand = 15"
    using b by (simp_all add: e freshTable_facts SMALL_BLIND_def BIG_BLIND_def)
  show "stage firstHand = Preflop" "length (deck firstHand) = 48" using st e by simp_all
qed

lemma shortHand_facts:
  "startHand identitySwaps shortTable = (None, shortHand)"
  "handState identitySwaps shortTable shortHand"
  "\<not> roundOver shortHand" "length (players shortHand) = 2"
  "dealerIndex shortHand = 0" "currentPlayerIndex shortHand = 1"
  "bet (players shortHand ! 0) = 10" "bet (players shortHand ! 1) = 5"
  "chips (players shortHand ! 0) = 990" "chips (players shortHand ! 1) = 3"
  "currentBet shortHand = 10" "mainPot shortHand = 15"
proof -
  from startHand_handInv [OF shortTable_facts(2) validSwaps_identity]
  obtain s where s: "startHand identitySwaps shortTable = (None, s)"
    and i: "handInv (chipsTotal shortTable) s" and n: "\<not> roundOver s"
    and bp: "blindsPosted shortTable s"
    by blast
  have e: "shortHand = s" using s by (simp add: shortHand_def)
  show "startHand identitySwaps shortTable = (None, shortHand)" using s e by simp
  show "handState identitySwaps shortTable shortHand"
    using handState.start [OF s] e by simp
  show "\<not> roundOver shortHand" using n e by simp
  show "length (players shortHand) = 2" using i e by (simp add: handInv_def coreInv_def)
  note b = blinds_at_dealer_one [OF bp shortTable_facts(3)]
  show "dealerIndex shortHand = 0" "currentPlayerIndex shortHand = 1"
    "bet (players shortHand ! 0) = 10" "bet (players shortHand ! 1) = 5"
    "chips (players shortHand ! 0) = 990" "chips (players shortHand ! 1) = 3"
    "currentBet shortHand = 10" "mainPot shortHand = 15"
    using b by (simp_all add: e shortTable_facts SMALL_BLIND_def BIG_BLIND_def)
qed

lemma map_two:
  assumes "map f xs = [a, b]"
  shows "f (xs ! 0) = a" "f (xs ! Suc 0) = b" "length xs = 2"
  using assms by (auto simp: map_eq_Cons_conv)

lemma run_summary:
  assumes "map_option (\<lambda>r. (fst r, summary (snd r))) (playAll acts s) = Some (e, v)"
  shows "playAll acts s = Some (e, run acts s)" and "summary (run acts s) = v"
  using assms by (cases "playAll acts s"; auto simp: run_def)+

text \<open>The two runs, evaluated.\<close>

lemma river_run:
  "map_option (\<lambda>r. (fst r, summary (snd r)))
     (playAll [(Call, 0), (Check, 0), (Check, 0)] firstHand)
   = Some (None, River, 40, 5, 1, 20, 0, [990, 990], [0, 0], False, [])"
  by code_simp

lemma short_raise_run:
  "map_option (\<lambda>r. (fst r, summary (snd r))) (playAll [(Raise, 20)] shortHand)
   = Some (None, Preflop, 48, 0, 0, 18, 8, [990, 0], [10, 8], False, [])"
  by code_simp

lemma riverHand_facts:
  "playAll [(Call, 0), (Check, 0), (Check, 0)] firstHand = Some (None, riverHand)"
  "handState identitySwaps freshTable riverHand"
  "stage riverHand = River" "length (deck riverHand) = 40"
  "length (communityCards riverHand) = 5" "currentPlayerIndex riverHand = 1"
  "mainPot riverHand = 20" "currentBet riverHand = 0"
  "bet (players riverHand ! 0) = 0" "bet (players riverHand ! Suc 0) = 0"
  "length (players riverHand) = 2" "\<not> roundOver riverHand"
  "winners riverHand = []" "chipsTotal riverHand = 1980"
proof -
  note r = run_summary [OF river_run, folded riverHand_def]
  show "playAll [(Call, 0), (Check, 0), (Check, 0)] firstHand = Some (None, riverHand)"
    by (rule r(1))
  show "handState identitySwaps freshTable riverHand"
    unfolding riverHand_def
    by (rule run_handState [OF freshTable_facts(2) validSwaps_identity firstHand_facts(2)])
  have b: "map bet (players riverHand) = [0, 0]" using r(2) by (simp add: summary_def)
  show "bet (players riverHand ! 0) = 0" "bet (players riverHand ! Suc 0) = 0"
    "length (players riverHand) = 2"
    using map_two [OF b] by simp_all
  show "stage riverHand = River" "length (deck riverHand) = 40"
    "length (communityCards riverHand) = 5" "currentPlayerIndex riverHand = 1"
    "mainPot riverHand = 20" "currentBet riverHand = 0" "\<not> roundOver riverHand"
    "winners riverHand = []"
    using r(2) by (simp_all add: summary_def)
  have c: "map chips (players riverHand) = [990, 990]" using r(2) by (simp add: summary_def)
  show "chipsTotal riverHand = 1980" by (simp add: chipsTotal_def c)
qed

lemma shortRaise_facts:
  "playAll [(Raise, 20)] shortHand = Some (None, shortRaise)"
  "playerAction Raise 20 shortHand = Some (None, shortRaise)"
  "currentBet shortRaise = 8"
  "bet (players shortRaise ! 0) = 10" "bet (players shortRaise ! Suc 0) = 8"
  "chips (players shortRaise ! Suc 0) = 0"
proof -
  note r = run_summary [OF short_raise_run, folded shortRaise_def]
  show p: "playAll [(Raise, 20)] shortHand = Some (None, shortRaise)" by (rule r(1))
  from playerAction_handState [OF shortTable_facts(2) validSwaps_identity shortHand_facts(2,3),
      of Raise 20]
  obtain e s' where a: "playerAction Raise 20 shortHand = Some (e, s')"
    and e: "e = None \<or> e = Some CannotCheck"
    by blast
  show "playerAction Raise 20 shortHand = Some (None, shortRaise)"
    using p a e shortHand_facts(3) by auto
  have b: "map bet (players shortRaise) = [10, 8]" using r(2) by (simp add: summary_def)
  have c: "map chips (players shortRaise) = [990, 0]" using r(2) by (simp add: summary_def)
  show "bet (players shortRaise ! 0) = 10" "bet (players shortRaise ! Suc 0) = 8"
    using map_two [OF b] by simp_all
  show "chips (players shortRaise ! Suc 0) = 0" using map_two [OF c] by simp
  show "currentBet shortRaise = 8" using r(2) by (simp add: summary_def)
qed

section \<open>Properties of the hand evaluator\<close>

text \<open>
  Claim C1. The claim says that the comparable value returned by \<open>evaluateHand\<close>, which
  \<open>showdown\<close> compares, separates two hands of one category whenever their tie-break
  ranks differ. The value the code returns is the ordinal of the category alone: a pair of
  aces with king, queen, jack, a pair of aces with king, queen, nine and a pair of twos all
  have the value 2.
\<close>

theorem evaluate_value_is_category_only:
  "valueOf [newCard Spades 14, newCard Hearts 14, newCard Diamonds 13, newCard Clubs 12,
            newCard Spades 11] = Inr 2
   \<and> valueOf [newCard Diamonds 14, newCard Clubs 14, newCard Spades 13, newCard Hearts 12,
              newCard Diamonds 9] = Inr 2
   \<and> valueOf [newCard Diamonds 2, newCard Clubs 2, newCard Spades 5, newCard Hearts 4,
              newCard Diamonds 3] = Inr 2"
  by code_simp

text \<open>
  Claim C2. The wheel A-2-3-4-5 with two unrelated cards is found to be a straight, but it
  is not valued below the straight 6-7-8-9-10: the comparable values are both 5, the
  description names the ace as the high card, and the value \<open>getHandValue\<close> that ranks the
  five-card combinations puts the wheel (89) above the ten-high straight (85).
\<close>

theorem wheel_not_below_ten_high_straight:
  "rankOf [newCard Spades 14, newCard Hearts 2, newCard Diamonds 3, newCard Clubs 4,
           newCard Spades 5, newCard Diamonds 9, newCard Clubs 11] = Inr Straight
   \<and> valueOf [newCard Spades 14, newCard Hearts 2, newCard Diamonds 3, newCard Clubs 4,
              newCard Spades 5, newCard Diamonds 9, newCard Clubs 11] = Inr 5
   \<and> valueOf [newCard Spades 6, newCard Hearts 7, newCard Diamonds 8, newCard Clubs 9,
              newCard Spades 10] = Inr 5
   \<and> descriptionOf [newCard Spades 14, newCard Hearts 2, newCard Diamonds 3, newCard Clubs 4,
              newCard Spades 5, newCard Diamonds 9, newCard Clubs 11]
       = Inr ''Straight, Ace of Spades high''
   \<and> getHandValue (sortByRankDesc [newCard Spades 14, newCard Hearts 2, newCard Diamonds 3,
              newCard Clubs 4, newCard Spades 5]) = Inr 89
   \<and> getHandValue (sortByRankDesc [newCard Spades 6, newCard Hearts 7, newCard Diamonds 8,
              newCard Clubs 9, newCard Spades 10]) = Inr 85"
  by code_simp

text \<open>
  Claim C3. A five-high straight flush is a straight flush, below a royal flush. The code
  looks at the first card of the hand sorted by descending rank, which is the ace of the
  wheel, and classifies the hand as a royal flush with the value 10, the value of the
  ace-high straight flush.
\<close>

theorem five_high_straight_flush_is_royal:
  "rankOf [newCard Spades 14, newCard Spades 2, newCard Spades 3, newCard Spades 4,
           newCard Spades 5] = Inr RoyalFlush
   \<and> valueOf [newCard Spades 14, newCard Spades 2, newCard Spades 3, newCard Spades 4,
              newCard Spades 5] = Inr 10
   \<and> valueOf [newCard Hearts 10, newCard Hearts 11, newCard Hearts 12, newCard Hearts 13,
              newCard Hearts 14] = Inr 10"
  by code_simp

text \<open>
  Claim C4. For seven cards with ranks 2 to 14, \<open>evaluateHand\<close> returns an evaluation
  whose \<open>cards\<close> are five of the input cards, and whose value is at least the value that
  \<open>evaluateHand\<close> gives to any five of the input cards, in whatever order they are listed.
\<close>

theorem evaluateHand_best_of_seven:
  assumes len: "length cs = 7" and v: "validRanks cs"
  shows "\<exists>e. evaluateHand cs = Inr e \<and> length (cards e) = 5 \<and> mset (cards e) \<subseteq># mset cs
           \<and> (\<forall>S. length S = 5 \<and> mset S \<subseteq># mset cs
                  \<longrightarrow> (\<exists>x. valueOf S = Inr x \<and> x \<le> hvalue e))"
proof -
  let ?combos = "getCombinations cs 5"
  have ok: "\<forall>c\<in>set ?combos. length c = 5 \<and> validRanks c"
    using getCombinations_sound [of _ cs 5] validRanks_sub [OF v] by blast
  have "mset (take 5 cs) \<subseteq># mset (take 5 cs) + mset (drop 5 cs)"
    by (rule mset_subset_eq_add_left)
  then have "mset (take 5 cs) \<subseteq># mset (take 5 cs @ drop 5 cs)"
    by (simp only: mset_append)
  then have t: "length (take 5 cs) = 5" "mset (take 5 cs) \<subseteq># mset cs"
    using len by simp_all
  then obtain c0 where c0: "c0 \<in> set ?combos"
    using getCombinations_complete [of "take 5 cs" 5 cs] by blast
  obtain x0 where x0: "getHandValue (sortByRankDesc c0) = Inr x0"
    "15 * of_int (categoryOf (sortByRankDesc c0)) \<le> x0"
    using getHandValue_band [of "sortByRankDesc c0"] ok c0 by auto
  have "1 \<le> categoryOf (sortByRankDesc c0)" by (simp add: categoryOf_def)
  then have "(15::rat) \<le> 15 * of_int (categoryOf (sortByRankDesc c0))" by simp
  then have x0pos: "- 1 < x0" using x0 by simp
  from bestOfCombinations_spec [OF ok, of "- 1" "[]"]
  obtain h where h: "bestOfCombinations ?combos (- 1) [] = Inr h"
    and d: "(h = [] \<and> (\<forall>c\<in>set ?combos. \<forall>x. getHandValue (sortByRankDesc c) = Inr x \<longrightarrow> x \<le> - 1))
      \<or> (\<exists>c\<in>set ?combos. h = sortByRankDesc c \<and>
            (\<exists>x. getHandValue h = Inr x \<and> - 1 < x \<and>
               (\<forall>c'\<in>set ?combos. \<forall>y. getHandValue (sortByRankDesc c') = Inr y \<longrightarrow> y \<le> x)))"
    by blast
  have "\<not> (\<forall>c\<in>set ?combos. \<forall>x. getHandValue (sortByRankDesc c) = Inr x \<longrightarrow> x \<le> - 1)"
    using c0 x0(1) x0pos by force
  with d obtain c x where c: "c \<in> set ?combos" and hc: "h = sortByRankDesc c"
    and x: "getHandValue h = Inr x"
    and mx: "\<forall>c'\<in>set ?combos. \<forall>y. getHandValue (sortByRankDesc c') = Inr y \<longrightarrow> y \<le> x"
    by blast
  have lh: "length h = 5" using hc ok c by simp
  have vh: "validRanks h" using hc ok c by simp
  have best: "getBestFiveCardHand cs = Inr h"
    using len h by (simp add: getBestFiveCardHand_def)
  obtain e where e: "evaluateHand cs = Inr e" "cards e = h" "hvalue e = categoryOf h"
    using evaluateHand_best [OF _ best lh] len by auto
  have sub: "mset (cards e) \<subseteq># mset cs"
    using e(2) hc getCombinations_sound [OF c] by simp
  have xh: "x < 15 * of_int (categoryOf h) + 15"
    using getHandValue_band [OF lh vh] x by auto
  have "\<exists>y. valueOf S = Inr y \<and> y \<le> hvalue e" if S: "length S = 5" "mset S \<subseteq># mset cs" for S
  proof -
    obtain c' where c': "c' \<in> set ?combos" "mset c' = mset S"
      using getCombinations_complete [OF S] by blast
    obtain y where y: "getHandValue (sortByRankDesc c') = Inr y"
      "15 * of_int (categoryOf (sortByRankDesc c')) \<le> y"
      using getHandValue_band [of "sortByRankDesc c'"] ok c'(1) by auto
    have "y \<le> x" using mx c'(1) y(1) by blast
    then have "(15::rat) * of_int (categoryOf (sortByRankDesc c')) < 15 * of_int (categoryOf h) + 15"
      using y(2) xh by linarith
    then have "(of_int (categoryOf (sortByRankDesc c')) :: rat) < of_int (categoryOf h + 1)"
      by simp
    then have "categoryOf (sortByRankDesc c') < categoryOf h + 1"
      by (simp only: of_int_less_iff)
    moreover have "categoryOf (sortByRankDesc c') = categoryOf (sortByRankDesc S)"
      using c'(2) by (rule categoryOf_perm)
    ultimately show ?thesis using valueOf_five [OF S(1)] e(3) by simp
  qed
  then show ?thesis using e lh sub by auto
qed

theorem evaluateHand_best_of_seven_witness:
  "length [newCard Spades 14, newCard Hearts 2, newCard Diamonds 3, newCard Clubs 4,
           newCard Spades 5, newCard Diamonds 9, newCard Clubs 11] = 7
   \<and> validRanks [newCard Spades 14, newCard Hearts 2, newCard Diamonds 3, newCard Clubs 4,
           newCard Spades 5, newCard Diamonds 9, newCard Clubs 11]
   \<and> (\<exists>e. evaluateHand [newCard Spades 14, newCard Hearts 2, newCard Diamonds 3,
              newCard Clubs 4, newCard Spades 5, newCard Diamonds 9, newCard Clubs 11] = Inr e
          \<and> length (cards e) = 5
          \<and> mset (cards e) \<subseteq># mset [newCard Spades 14, newCard Hearts 2, newCard Diamonds 3,
              newCard Clubs 4, newCard Spades 5, newCard Diamonds 9, newCard Clubs 11]
          \<and> (\<forall>S. length S = 5 \<and> mset S \<subseteq># mset [newCard Spades 14, newCard Hearts 2,
                 newCard Diamonds 3, newCard Clubs 4, newCard Spades 5, newCard Diamonds 9,
                 newCard Clubs 11]
                \<longrightarrow> (\<exists>x. valueOf S = Inr x \<and> x \<le> hvalue e)))"
proof -
  let ?cs = "[newCard Spades 14, newCard Hearts 2, newCard Diamonds 3, newCard Clubs 4,
           newCard Spades 5, newCard Diamonds 9, newCard Clubs 11]"
  have l: "length ?cs = 7" by simp
  have v: "validRanks ?cs" by (simp add: validRanks_def newCard_def)
  from evaluateHand_best_of_seven [OF l v] l v show ?thesis by blast
qed

section \<open>Properties of the AI hand strength\<close>

lemma preflop_pair_of_aces:
  "rank c1 = 14 \<Longrightarrow> rank c2 = 14 \<Longrightarrow> calculatePreflopHandStrength [c1, c2] = Some (9 / 10)"
  by (simp add: calculatePreflopHandStrength_def nthOpt_def)

lemma strength_preflop_pair_of_aces:
  "stage s = Preflop \<Longrightarrow> currentPlayerIndex s < length (players s) \<Longrightarrow>
   holeCards (players s ! currentPlayerIndex s) = [c1, c2] \<Longrightarrow> rank c1 = 14 \<Longrightarrow>
   rank c2 = 14 \<Longrightarrow> calculateAIHandStrength s = Inr (Some (9 / 10))"
  by (simp add: calculateAIHandStrength_def bindE_def elemAt_def preflop_pair_of_aces)

text \<open>
  Claim C9. For two hole cards of rank 14 the preflop estimate is a number above 0.85, and
  it is the same number whatever the rest of the game state is: the estimate that
  \<open>calculateAIHandStrength\<close> returns in the preflop stage, before any bluff factor is added,
  is a function of the hole cards alone.
\<close>

theorem pair_of_aces_preflop_estimate:
  assumes "rank c1 = 14" and "rank c2 = 14"
  shows "\<exists>v. calculatePreflopHandStrength [c1, c2] = Some v \<and> v > 85 / 100
           \<and> (\<forall>s. stage s = Preflop \<and> currentPlayerIndex s < length (players s)
                     \<and> holeCards (players s ! currentPlayerIndex s) = [c1, c2]
                  \<longrightarrow> calculateAIHandStrength s = Inr (Some v))"
proof -
  have "calculatePreflopHandStrength [c1, c2] = Some (9 / 10)"
    using assms by (rule preflop_pair_of_aces)
  moreover have "(9 / 10 :: rat) > 85 / 100" by simp
  moreover have "\<forall>s. stage s = Preflop \<and> currentPlayerIndex s < length (players s)
                     \<and> holeCards (players s ! currentPlayerIndex s) = [c1, c2]
                  \<longrightarrow> calculateAIHandStrength s = Inr (Some (9 / 10))"
    using assms by (simp add: strength_preflop_pair_of_aces)
  ultimately show ?thesis by blast
qed

theorem pair_of_aces_preflop_estimate_witness:
  "rank (newCard Spades 14) = 14 \<and> rank (newCard Hearts 14) = 14
   \<and> (\<exists>v. calculatePreflopHandStrength [newCard Spades 14, newCard Hearts 14] = Some v
          \<and> v > 85 / 100
          \<and> (\<forall>s. stage s = Preflop \<and> currentPlayerIndex s < length (players s)
                    \<and> holeCards (players s ! currentPlayerIndex s)
                        = [newCard Spades 14, newCard Hearts 14]
                 \<longrightarrow> calculateAIHandStrength s = Inr (Some v)))"
  using pair_of_aces_preflop_estimate [of "newCard Spades 14" "newCard Hearts 14"]
  by (simp add: newCard_def)

section \<open>Properties of the betting state machine\<close>

lemma handInv_pot_nonneg:
  assumes "handInv T s"
  shows "0 \<le> mainPot s"
proof (cases "roundOver s")
  case True
  then show ?thesis using assms by (simp add: handInv_def)
next
  case False
  have len: "length (players s) = 2" using assms by (simp add: handInv_def coreInv_def)
  then obtain p0 p1 where ps: "players s = [p0, p1]" by (rule two_players)
  have "0 \<le> bet p0" "0 \<le> bet p1"
    using assms ps by (simp_all add: handInv_def coreInv_def playersOk_def)
  moreover have "bet p0 + bet p1 \<le> mainPot s"
    using assms False ps by (simp add: handInv_def betsTotal_def)
  ultimately show ?thesis by linarith
qed

lemma handInv_deck_bounds:
  assumes "handInv T s"
  shows "40 \<le> length (deck s) \<and> length (deck s) \<le> 48"
proof -
  have "deckInv s" using assms by (simp add: handInv_def coreInv_def)
  then show ?thesis by (cases "stage s") (simp_all add: deckInv_def)
qed

lemma startHand_minBet:
  assumes "length (players s0) = 2"
  shows "minBet (snd (startHand js s0)) = minBet s0"
proof -
  from startHand_spec [OF assms, of js]
  obtain s where "startHand js s0 = (None, s)" "minBet s = minBet s0" by blast
  then show ?thesis by simp
qed

lemma shortHand_minBet: "minBet shortHand = 10"
  unfolding shortHand_def startHand_minBet [OF shortTable_facts(1)]
  by (simp add: shortTable_def PokerGame_def MIN_BET_def BIG_BLIND_def)

lemmas firstHand_simps = firstHand_facts [unfolded One_nat_def]

lemmas shortHand_simps = shortHand_facts [unfolded One_nat_def]

lemmas riverHand_simps = riverHand_facts [unfolded One_nat_def]

text \<open>
  Claim C5, as it is stated, fails. At the table that the constructor builds with stacks
  of 1000 and 1000, the first hand moves the dealer button to seat 0; the dealer then has
  posted the big blind of 10 and the other player the small blind of 5.
\<close>

theorem heads_up_dealer_posts_big_blind:
  "startHand identitySwaps freshTable = (None, firstHand)
   \<and> dealerIndex firstHand = 0
   \<and> bet (players firstHand ! 0) = 10 \<and> BIG_BLIND = 10
   \<and> bet (players firstHand ! 1) = 5 \<and> SMALL_BLIND = 5"
  by (simp add: firstHand_simps SMALL_BLIND_def BIG_BLIND_def)

text \<open>
  Claim C5, amended. At a table of two players \<open>startHand\<close> returns without an
  exception, moves the dealer button to the next seat, and posts the small blind from the
  player after the dealer button, that is from the player who is not the dealer, and the
  big blind from the next player, who is the dealer. Each blind is the minimum of the
  blind and the chips that the posting player had. The first to act is the player after
  the big blind: the player who posted the small blind.
\<close>

theorem startHand_blinds_heads_up:
  assumes "length (players s0) = 2"
  shows "\<exists>s. startHand js s0 = (None, s)
     \<and> dealerIndex s = (dealerIndex s0 + 1) mod 2
     \<and> bet (players s ! ((dealerIndex s + 1) mod 2))
         = min SMALL_BLIND (chips (players s0 ! ((dealerIndex s + 1) mod 2)))
     \<and> chips (players s ! ((dealerIndex s + 1) mod 2))
         = chips (players s0 ! ((dealerIndex s + 1) mod 2))
           - min SMALL_BLIND (chips (players s0 ! ((dealerIndex s + 1) mod 2)))
     \<and> bet (players s ! dealerIndex s) = min BIG_BLIND (chips (players s0 ! dealerIndex s))
     \<and> chips (players s ! dealerIndex s)
         = chips (players s0 ! dealerIndex s) - min BIG_BLIND (chips (players s0 ! dealerIndex s))
     \<and> currentPlayerIndex s = (dealerIndex s + 1) mod 2"
proof -
  from startHand_spec [OF assms, of js]
  obtain s where s: "startHand js s0 = (None, s)" and bp: "blindsPosted s0 s" by blast
  define d where "d = dealerIndex s"
  have d0: "d = (dealerIndex s0 + 1) mod 2"
    using bp by (simp add: blindsPosted_def Let_def d_def)
  then have d2: "d < 2" by simp
  have m: "(d + 2) mod 2 = d" using d2 by simp
  note b = bp [unfolded blindsPosted_def Let_def, folded d_def, unfolded m]
  have "d = (dealerIndex s0 + 1) mod 2
     \<and> bet (players s ! ((d + 1) mod 2)) = min SMALL_BLIND (chips (players s0 ! ((d + 1) mod 2)))
     \<and> chips (players s ! ((d + 1) mod 2))
         = chips (players s0 ! ((d + 1) mod 2))
           - min SMALL_BLIND (chips (players s0 ! ((d + 1) mod 2)))
     \<and> bet (players s ! d) = min BIG_BLIND (chips (players s0 ! d))
     \<and> chips (players s ! d) = chips (players s0 ! d) - min BIG_BLIND (chips (players s0 ! d))
     \<and> currentPlayerIndex s = (d + 1) mod 2"
    using b by blast
  then show ?thesis using s unfolding d_def by blast
qed

theorem startHand_blinds_heads_up_witness:
  "length (players freshTable) = 2
   \<and> (\<exists>s. startHand identitySwaps freshTable = (None, s)
     \<and> dealerIndex s = (dealerIndex freshTable + 1) mod 2
     \<and> bet (players s ! ((dealerIndex s + 1) mod 2))
         = min SMALL_BLIND (chips (players freshTable ! ((dealerIndex s + 1) mod 2)))
     \<and> chips (players s ! ((dealerIndex s + 1) mod 2))
         = chips (players freshTable ! ((dealerIndex s + 1) mod 2))
           - min SMALL_BLIND (chips (players freshTable ! ((dealerIndex s + 1) mod 2)))
     \<and> bet (players s ! dealerIndex s)
         = min BIG_BLIND (chips (players freshTable ! dealerIndex s))
     \<and> chips (players s ! dealerIndex s)
         = chips (players freshTable ! dealerIndex s)
           - min BIG_BLIND (chips (players freshTable ! dealerIndex s))
     \<and> currentPlayerIndex s = (dealerIndex s + 1) mod 2)"
proof -
  have l: "length (players freshTable) = 2"
    by (simp add: freshTable_def PokerGame_def)
  from startHand_blinds_heads_up [OF l, of identitySwaps] l show ?thesis by blast
qed

text \<open>
  For shuffles whose swap indices are in range: in every state of a hand the pot is not
  negative and equals the chips that have left the stacks since the hand started, and when
  the hand is over the pot is empty and the stacks add up to what they were before the
  hand. The winners are listed in seat order, and \<open>awardPot\<close> on both seats gives each half
  of the pot and the odd chip to seat 0.
\<close>

lemma pot_conserved_in_range:
  assumes "tableOk s0" and "validSwaps js" and "handState js s0 s"
  shows "0 \<le> mainPot s \<and> mainPot s = chipsTotal s0 - chipsTotal s
     \<and> (roundOver s \<longrightarrow> mainPot s = 0 \<and> chipsTotal s = chipsTotal s0)
     \<and> winners s \<in> set [[], [0], [1], [0, 1]]
     \<and> mainPot (awardPot [0, 1] s) = 0
     \<and> chips (players (awardPot [0, 1] s) ! 0)
         = chips (players s ! 0) + mainPot s div 2 + mainPot s mod 2
     \<and> chips (players (awardPot [0, 1] s) ! 1) = chips (players s ! 1) + mainPot s div 2"
proof -
  have inv: "handInv (chipsTotal s0) s" using assms by (rule handState_handInv)
  have pot: "0 \<le> mainPot s" using inv by (rule handInv_pot_nonneg)
  have sum: "mainPot s + chipsTotal s = chipsTotal s0"
    and w: "winnersOk s" and len: "length (players s) = 2"
    using inv by (simp_all add: handInv_def coreInv_def)
  have over: "roundOver s \<longrightarrow> mainPot s = 0 \<and> chipsTotal s = chipsTotal s0"
    using inv sum by (auto simp: handInv_def)
  obtain p0 p1 where ps: "players s = [p0, p1]" using len by (rule two_players)
  have "mainPot (awardPot [0, 1] s) = 0
     \<and> chips (players (awardPot [0, 1] s) ! 0)
         = chips (players s ! 0) + mainPot s div 2 + mainPot s mod 2
     \<and> chips (players (awardPot [0, 1] s) ! 1) = chips (players s ! 1) + mainPot s div 2"
    unfolding awardPot_split [OF ps pot] by (simp add: ps)
  then show ?thesis using pot sum over w by (simp add: winnersOk_def)
qed



text \<open>
  Claim C7. In every state in which the current bet exceeds the bet of the player to act,
  \<open>check\<close> throws and the state is left as it was. When the two are equal the switch
  accepts the check in every state, and in every state of a hand that is not over the
  whole action returns without an exception.
\<close>

theorem check_needs_no_bet_to_call:
  "(currentPlayerIndex s < length (players s)
      \<and> currentBet s > bet (players s ! currentPlayerIndex s)
    \<longrightarrow> playerAction Check amt s = Some (Some CannotCheck, s))
   \<and> (currentPlayerIndex s < length (players s)
      \<and> bet (players s ! currentPlayerIndex s) = currentBet s
    \<longrightarrow> (\<exists>s1. actionSwitch Check amt s = Inr s1))
   \<and> (tableOk s0 \<and> validSwaps js \<and> handState js s0 s \<and> \<not> roundOver s
      \<and> bet (players s ! currentPlayerIndex s) = currentBet s
    \<longrightarrow> (\<exists>s'. playerAction Check amt s = Some (None, s')))"
proof (intro conjI impI)
  assume "currentPlayerIndex s < length (players s)
      \<and> currentBet s > bet (players s ! currentPlayerIndex s)"
  then show "playerAction Check amt s = Some (Some CannotCheck, s)"
    by (simp add: playerAction_def actionSwitch_def Let_def)
next
  assume "currentPlayerIndex s < length (players s)
      \<and> bet (players s ! currentPlayerIndex s) = currentBet s"
  then show "\<exists>s1. actionSwitch Check amt s = Inr s1"
    by (simp add: actionSwitch_def Let_def)
next
  assume a: "tableOk s0 \<and> validSwaps js \<and> handState js s0 s \<and> \<not> roundOver s
      \<and> bet (players s ! currentPlayerIndex s) = currentBet s"
  then have "tableOk s0" "validSwaps js" "handState js s0 s" by simp_all
  then have inv: "handInv (chipsTotal s0) s" by (rule handState_handInv)
  from playerAction_handInv [OF inv, of Check amt] a
  show "\<exists>s'. playerAction Check amt s = Some (None, s')" by auto
qed

theorem check_needs_no_bet_to_call_witness:
  "currentPlayerIndex firstHand < length (players firstHand)
   \<and> currentBet firstHand > bet (players firstHand ! currentPlayerIndex firstHand)
   \<and> playerAction Check 0 firstHand = Some (Some CannotCheck, firstHand)
   \<and> tableOk freshTable \<and> validSwaps identitySwaps
   \<and> handState identitySwaps freshTable riverHand \<and> \<not> roundOver riverHand
   \<and> currentPlayerIndex riverHand < length (players riverHand)
   \<and> bet (players riverHand ! currentPlayerIndex riverHand) = currentBet riverHand
   \<and> (\<exists>s1. actionSwitch Check 0 riverHand = Inr s1)
   \<and> (\<exists>s'. playerAction Check 0 riverHand = Some (None, s'))"
  using check_needs_no_bet_to_call [of firstHand 0 freshTable identitySwaps]
    check_needs_no_bet_to_call [of riverHand 0 freshTable identitySwaps]
  by (simp add: firstHand_simps riverHand_simps freshTable_facts validSwaps_identity)

text \<open>
  Claim C8, as it is stated, fails. The first hand at the table of 1000 and 1000 starts
  from a deck of 52 cards; after a call and two checks, none of which throws, it is on the
  river with 5 community cards and 40 cards left in the deck: 12 cards have been drawn, not
  at most 11.
\<close>

theorem twelve_cards_drawn_by_the_river:
  "length (deck (resetHand identitySwaps freshTable)) = 52
   \<and> startHand identitySwaps freshTable = (None, firstHand)
   \<and> playAll [(Call, 0), (Check, 0), (Check, 0)] firstHand = Some (None, riverHand)
   \<and> stage riverHand = River \<and> length (communityCards riverHand) = 5
   \<and> length (deck riverHand) = 40"
proof -
  have "length (deck (resetHand identitySwaps freshTable)) = 52"
    by (simp add: resetHand_def Let_def)
  with firstHand_facts(1) riverHand_facts(1,3,4,5) show ?thesis by blast
qed

text \<open>
  Claim C8, amended. \<open>drawCard\<close> fails exactly when the deck is empty, with the error
  that no cards are left and without changing the state. That error is unreachable in a
  hand of two players started by \<open>startHand\<close>: the deck is shuffled from 52 cards,
  \<open>startHand\<close> returns without an exception and leaves 48, every state of the hand has
  between 40 and 48 cards in the deck, so that at most 2 * 2 + 5 + 3 = 12 cards are drawn,
  one card being burnt before the flop, before the turn and before the river, and no action
  taken while the hand is not over ends with that error.
\<close>

theorem deck_never_exhausted:
  assumes "tableOk s0" and "validSwaps js"
  shows "((\<exists>e. fst (drawCard t) = Inl e) \<longleftrightarrow> deck t = [])
     \<and> (deck t = [] \<longrightarrow> drawCard t = (Inl NoCardsLeft, t))
     \<and> length (deck (resetHand js s0)) = 52
     \<and> (\<exists>s1. startHand js s0 = (None, s1) \<and> length (deck s1) = 48)
     \<and> (handState js s0 s
        \<longrightarrow> 40 \<le> length (deck s) \<and> length (deck s) \<le> 48
            \<and> (\<not> roundOver s
               \<longrightarrow> (\<exists>r s'. playerAction a amt s = Some (r, s') \<and> r \<noteq> Some NoCardsLeft)))"
proof -
  have d1: "(\<exists>e. fst (drawCard t) = Inl e) \<longleftrightarrow> deck t = []"
    by (simp add: drawCard_def)
  have d2: "deck t = [] \<longrightarrow> drawCard t = (Inl NoCardsLeft, t)"
    by (simp add: drawCard_def)
  have d3: "length (deck (resetHand js s0)) = 52"
    by (simp add: resetHand_def Let_def)
  have d4: "\<exists>s1. startHand js s0 = (None, s1) \<and> length (deck s1) = 48"
    using startHand_handInv [OF assms] by blast
  have d5: "40 \<le> length (deck s) \<and> length (deck s) \<le> 48
            \<and> (\<not> roundOver s
               \<longrightarrow> (\<exists>r s'. playerAction a amt s = Some (r, s') \<and> r \<noteq> Some NoCardsLeft))"
    if h: "handState js s0 s"
  proof -
    have inv: "handInv (chipsTotal s0) s" using assms h by (rule handState_handInv)
    have "\<exists>r s'. playerAction a amt s = Some (r, s') \<and> r \<noteq> Some NoCardsLeft"
      if "\<not> roundOver s"
      using playerAction_handInv [OF inv that, of a amt] by auto
    then show ?thesis using handInv_deck_bounds [OF inv] by blast
  qed
  from d1 d2 d3 d4 d5 show ?thesis by blast
qed

theorem deck_never_exhausted_witness:
  "tableOk freshTable \<and> validSwaps identitySwaps
   \<and> deck (freshTable\<lparr>deck := []\<rparr>) = []
   \<and> drawCard (freshTable\<lparr>deck := []\<rparr>) = (Inl NoCardsLeft, freshTable\<lparr>deck := []\<rparr>)
   \<and> handState identitySwaps freshTable riverHand \<and> \<not> roundOver riverHand
   \<and> length (deck riverHand) = 40
   \<and> (\<exists>s1. startHand identitySwaps freshTable = (None, s1) \<and> length (deck s1) = 48)
   \<and> (\<exists>r s'. playerAction Check 0 riverHand = Some (r, s') \<and> r \<noteq> Some NoCardsLeft)"
  using deck_never_exhausted [OF freshTable_facts(2) validSwaps_identity,
      of "freshTable\<lparr>deck := []\<rparr>" riverHand Check 0]
  by (simp add: freshTable_facts validSwaps_identity riverHand_simps)

text \<open>
  Claim C10. The switch of \<open>playerAction\<close> accepts every raise and leaves the current
  bet equal to the new bet of the player who raised, which is the old bet plus the minimum
  of the chips that player has and of what is missing to the current bet plus the amount
  (at least the minimum bet). In every state of a hand that is not over the whole action
  returns without an exception and the current bet is the bet of the player who raised.
  There is a state of a hand in which the raise leaves the current bet lower than it was
  and lower than the bet that the other player has posted.
\<close>

theorem raise_sets_current_bet:
  "(currentPlayerIndex s < length (players s)
    \<longrightarrow> (\<exists>s1. actionSwitch Raise amt s = Inr s1
           \<and> currentBet s1 = bet (players s1 ! currentPlayerIndex s)
           \<and> bet (players s1 ! currentPlayerIndex s)
               = bet (players s ! currentPlayerIndex s)
                 + min (currentBet s + max amt (minBet s)
                          - bet (players s ! currentPlayerIndex s))
                       (chips (players s ! currentPlayerIndex s))))
   \<and> (tableOk s0 \<and> validSwaps js \<and> handState js s0 s \<and> \<not> roundOver s
    \<longrightarrow> (\<exists>s'. playerAction Raise amt s = Some (None, s')
           \<and> currentBet s' = bet (players s' ! currentPlayerIndex s)))
   \<and> (\<exists>js0 t0 t x t'. tableOk t0 \<and> validSwaps js0 \<and> handState js0 t0 t \<and> \<not> roundOver t
         \<and> playerAction Raise x t = Some (None, t')
         \<and> currentBet t' < currentBet t
         \<and> currentBet t' < bet (players t' ! ((currentPlayerIndex t + 1) mod 2)))"
proof (intro conjI impI)
  assume "currentPlayerIndex s < length (players s)"
  then show "\<exists>s1. actionSwitch Raise amt s = Inr s1
           \<and> currentBet s1 = bet (players s1 ! currentPlayerIndex s)
           \<and> bet (players s1 ! currentPlayerIndex s)
               = bet (players s ! currentPlayerIndex s)
                 + min (currentBet s + max amt (minBet s)
                          - bet (players s ! currentPlayerIndex s))
                       (chips (players s ! currentPlayerIndex s))"
    by (auto simp add: actionSwitch_def Let_def pushLog_def setPlayer_def max_def)
next
  assume a: "tableOk s0 \<and> validSwaps js \<and> handState js s0 s \<and> \<not> roundOver s"
  then have "tableOk s0" "validSwaps js" "handState js s0 s" by simp_all
  then have inv: "handInv (chipsTotal s0) s" by (rule handState_handInv)
  from playerAction_handInv [OF inv, of Raise amt] a
  show "\<exists>s'. playerAction Raise amt s = Some (None, s')
           \<and> currentBet s' = bet (players s' ! currentPlayerIndex s)"
    by auto
next
  have "tableOk shortTable \<and> validSwaps identitySwaps
         \<and> handState identitySwaps shortTable shortHand \<and> \<not> roundOver shortHand
         \<and> playerAction Raise 20 shortHand = Some (None, shortRaise)
         \<and> currentBet shortRaise < currentBet shortHand
         \<and> currentBet shortRaise
             < bet (players shortRaise ! ((currentPlayerIndex shortHand + 1) mod 2))"
    by (simp add: shortTable_facts validSwaps_identity shortHand_simps shortRaise_facts)
  then show "\<exists>js0 t0 t x t'. tableOk t0 \<and> validSwaps js0 \<and> handState js0 t0 t
         \<and> \<not> roundOver t
         \<and> playerAction Raise x t = Some (None, t')
         \<and> currentBet t' < currentBet t
         \<and> currentBet t' < bet (players t' ! ((currentPlayerIndex t + 1) mod 2))"
    by blast
qed

theorem raise_sets_current_bet_witness:
  "currentPlayerIndex shortHand < length (players shortHand)
   \<and> tableOk shortTable \<and> validSwaps identitySwaps
   \<and> handState identitySwaps shortTable shortHand \<and> \<not> roundOver shortHand
   \<and> (\<exists>s1. actionSwitch Raise 20 shortHand = Inr s1
          \<and> currentBet s1 = bet (players s1 ! currentPlayerIndex shortHand)
          \<and> bet (players s1 ! currentPlayerIndex shortHand) = 8)
   \<and> (\<exists>s'. playerAction Raise 20 shortHand = Some (None, s')
          \<and> currentBet s' = bet (players s' ! currentPlayerIndex shortHand))"
  using raise_sets_current_bet [of shortHand 20 shortTable identitySwaps]
  by (simp add: shortTable_facts validSwaps_identity shortHand_simps shortHand_minBet)
end
